theory Spec2Isabelle
  imports Complex_Main "HOL-Library.Sublist"
begin

section \<open>Bounding box computations of lightnet (\<open>lightnet/bbox.py\<close>)\<close>

text \<open>
  Tensor elements are modelled as real numbers: the development verifies the arithmetic
  the code writes down, not the rounding of the 32-bit floats that carry it.
\<close>

subsection \<open>\<open>bbox_iou\<close>\<close>

text \<open>
  A box in centre form \<open>[xc, yc, w, h]\<close>. The function reads the entries 0 to 3 of
  both arguments only.
\<close>

type_synonym box = "real \<times> real \<times> real \<times> real"

text \<open>The intersection extents \<open>iw\<close> and \<open>ih\<close> as lines 170 to 182 compute them.\<close>

definition iou_iw :: "box \<Rightarrow> box \<Rightarrow> real" where
  "iou_iw box1 box2 =
     (case box1 of (x1, y1, w1, h1) \<Rightarrow> case box2 of (x2, y2, w2, h2) \<Rightarrow>
        let mx = min (x1 - w1 / 2) (x2 - w2 / 2);
            Mx = max (x1 + w1 / 2) (x2 + w2 / 2);
            uw = Mx - mx
        in w1 + w2 - uw)"

definition iou_ih :: "box \<Rightarrow> box \<Rightarrow> real" where
  "iou_ih box1 box2 =
     (case box1 of (x1, y1, w1, h1) \<Rightarrow> case box2 of (x2, y2, w2, h2) \<Rightarrow>
        let my = min (y1 - h1 / 2) (y2 - h2 / 2);
            My = max (y1 + h1 / 2) (y2 + h2 / 2);
            uh = My - my
        in h1 + h2 - uh)"

definition bbox_iou :: "box \<Rightarrow> box \<Rightarrow> real" where
  "bbox_iou box1 box2 =
     (case box1 of (x1, y1, w1, h1) \<Rightarrow> case box2 of (x2, y2, w2, h2) \<Rightarrow>
        let iw = iou_iw box1 box2;
            ih = iou_ih box1 box2
        in if iw \<le> 0 \<or> ih \<le> 0 then 0
           else
             let area1 = w1 * h1;
                 area2 = w2 * h2;
                 iarea = iw * ih;
                 uarea = area1 + area2 - iarea
             in iarea / uarea)"

subsection \<open>Errors and the boxes handed between the stages\<close>

text \<open>
  The exceptions the code can raise, as values: \<open>ViewError\<close> is the error of
  \<open>Tensor.view\<close> when the requested sizes do not fit the number of elements,
  \<open>IndexError\<close> an index or a dimension out of range, \<open>ZeroDivisionError\<close>
  Python's division by zero.
\<close>

datatype error = ViewError | IndexError | ZeroDivisionError

text \<open>
  One entry of \<open>box_batch\<close> (lines 97 to 104): \<open>[xc, yc, w, h, score, class index]\<close>.
\<close>

record region_box =
  rb_x :: real
  rb_y :: real
  rb_w :: real
  rb_h :: real
  rb_score :: real
  rb_cls :: nat

definition rb_box :: "region_box \<Rightarrow> box" where
  "rb_box r = (rb_x r, rb_y r, rb_w r, rb_h r)"

subsection \<open>\<open>BBoxToBrambox\<close>\<close>











subsection \<open>Tensors\<close>

text \<open>
  A contiguous tensor: its sizes, its elements in row-major order, and whether it lives
  on the accelerator. A tensor is well formed when it has as many elements as its sizes
  ask for.
\<close>

record tensor =
  shape :: "nat list"
  data :: "real list"
  is_cuda :: bool

definition wf_tensor :: "tensor \<Rightarrow> bool" where
  "wf_tensor t \<longleftrightarrow> length (data t) = prod_list (shape t)"

text \<open>The element \<open>t[b, ch, r, c]\<close> of a tensor of rank 4.\<close>

definition elem :: "tensor \<Rightarrow> nat \<Rightarrow> nat \<Rightarrow> nat \<Rightarrow> nat \<Rightarrow> real" where
  "elem t b ch r c = data t ! (((b * shape t ! 1 + ch) * shape t ! 2 + r) * shape t ! 3 + c)"

text \<open>
  The element \<open>[b, a, k, hw]\<close> of the view of line 61, of sizes
  \<open>(batch, num_anchors, K, h*w)\<close>, over the same elements.
\<close>

definition view_at :: "real list \<Rightarrow> nat \<Rightarrow> nat \<Rightarrow> nat \<Rightarrow> nat \<Rightarrow> nat \<Rightarrow> nat \<Rightarrow> nat \<Rightarrow> real" where
  "view_at d A K HW b a k hw = d ! (((b * A + a) * K + k) * HW + hw)"

text \<open>
  An in-place elementwise operation on the slice \<open>[:, :, k, :]\<close> of that view: the
  element at \<open>[b, a, k, hw]\<close> becomes \<open>f a hw\<close> of its old value, every other element
  stays.
\<close>

definition chan_map ::
  "nat \<Rightarrow> nat \<Rightarrow> nat \<Rightarrow> nat \<Rightarrow> (nat \<Rightarrow> nat \<Rightarrow> real \<Rightarrow> real) \<Rightarrow> real list \<Rightarrow> real list" where
  "chan_map A K HW k f d =
     map (\<lambda>(i, v). if (i div HW) mod K = k then f ((i div (K * HW)) mod A) (i mod HW) v else v)
       (enumerate 0 d)"

text \<open>Moving a tensor to the accelerator copies its values.\<close>

definition cuda :: "real list \<Rightarrow> real list" where
  "cuda xs = xs"

subsection \<open>\<open>BBoxConverter\<close>\<close>

record network =
  net_anchors :: "real list"
  net_num_classes :: nat
  net_num_anchors :: nat

record BBoxConverter =
  conf_thresh :: real
  nms_thresh :: real
  anchors :: "real list"
  num_classes :: nat
  num_anchors :: nat

text \<open>Lines 23 to 28.\<close>

definition BBoxConverter_init :: "network \<Rightarrow> real \<Rightarrow> real \<Rightarrow> BBoxConverter" where
  "BBoxConverter_init net conf nms =
     \<lparr>conf_thresh = conf, nms_thresh = nms, anchors = net_anchors net,
      num_classes = net_num_classes net, num_anchors = net_num_anchors net\<rparr>"

subsection \<open>The decoding part of \<open>_get_region_boxes_nms\<close> (lines 40 to 75)\<close>

text \<open>
  Lines 51 and 52: \<open>lin_x[r*w + c] = c\<close> and \<open>lin_y[r*w + c] = r\<close>. The first repeats the
  row \<open>0, \<dots>, w-1\<close> \<open>h\<close> times; the second is the transpose of \<open>w\<close> copies of
  \<open>0, \<dots>, h-1\<close>, read row by row.
\<close>

definition lin_x :: "nat \<Rightarrow> nat \<Rightarrow> real list" where
  "lin_x h w = concat (replicate h (map real [0..<w]))"

definition lin_y :: "nat \<Rightarrow> nat \<Rightarrow> real list" where
  "lin_y h w = concat (map (\<lambda>r. replicate w (real r)) [0..<h])"

text \<open>Python's slice \<open>xs[::2]\<close>; \<open>xs[1::2]\<close> is the same on \<open>drop 1 xs\<close>.\<close>

fun every_other :: "'a list \<Rightarrow> 'a list" where
  "every_other [] = []"
| "every_other [x] = [x]"
| "every_other (x # y # zs) = x # every_other zs"

definition sigmoid :: "real \<Rightarrow> real" where
  "sigmoid x = 1 / (1 + exp (- x))"

definition softmax :: "real list \<Rightarrow> real list" where
  "softmax xs = map (\<lambda>x. exp x / sum_list (map exp xs)) xs"

text \<open>
  \<open>torch.max\<close> along a dimension: the largest value and an index where it stands (here
  the first one). It is only called on a slice that is not empty.
\<close>

fun list_max :: "real list \<Rightarrow> real" where
  "list_max [] = 0"
| "list_max [x] = x"
| "list_max (x # y # ys) = max x (list_max (y # ys))"

fun index_of :: "real \<Rightarrow> real list \<Rightarrow> nat" where
  "index_of m [] = 0"
| "index_of m (x # xs) = (if x = m then 0 else Suc (index_of m xs))"

definition torch_max :: "real list \<Rightarrow> real \<times> nat" where
  "torch_max xs = (list_max xs, index_of (list_max xs) xs)"

text \<open>
  Lines 62 to 66, in order. Each line indexes a channel of the view and raises if the
  view has no such channel; the lines before it have then already been applied. The
  result is the error, if any, and the elements as the lines have left them.
\<close>

definition decode_channels ::
  "nat \<Rightarrow> nat \<Rightarrow> nat \<Rightarrow> nat \<Rightarrow> real list \<Rightarrow> real list \<Rightarrow> real list \<Rightarrow> real list \<Rightarrow> real list
     \<Rightarrow> error option \<times> real list" where
  "decode_channels A K h w lx ly anchor_w anchor_h d =
     (if K \<le> 0 then (Some IndexError, d) else
      let d = chan_map A K (h * w) 0 (\<lambda>a hw v. (sigmoid v + lx ! hw) / real w) d in
      if K \<le> 1 then (Some IndexError, d) else
      let d = chan_map A K (h * w) 1 (\<lambda>a hw v. (sigmoid v + ly ! hw) / real h) d in
      if K \<le> 2 then (Some IndexError, d) else
      let d = chan_map A K (h * w) 2 (\<lambda>a hw v. exp v * anchor_w ! a / real w) d in
      if K \<le> 3 then (Some IndexError, d) else
      let d = chan_map A K (h * w) 3 (\<lambda>a hw v. exp v * anchor_h ! a / real h) d in
      if K \<le> 4 then (Some IndexError, d) else
      let d = chan_map A K (h * w) 4 (\<lambda>a hw v. sigmoid v) d in
      (None, d))"

text \<open>
  Lines 69 to 75 for one candidate \<open>idx\<close> of image \<open>b\<close>: its combined score and its
  class index. The class logits are the channels from 5 on, as many as the view has.
\<close>

definition class_score ::
  "nat \<Rightarrow> nat \<Rightarrow> nat \<Rightarrow> nat \<Rightarrow> real list \<Rightarrow> nat \<Rightarrow> nat \<Rightarrow> real \<times> nat" where
  "class_score ncls A K HW d b idx =
     (let a = idx div HW; hw = idx mod HW in
      if ncls > 1 then
        let cls_scores = softmax (map (\<lambda>j. view_at d A K HW b a (5 + j) hw) [0..<K - 5]);
            (cls_max, cls_max_idx) = torch_max cls_scores
        in (cls_max * view_at d A K HW b a 4 hw, cls_max_idx)
      else (view_at d A K HW b a 4 hw, 0))"

text \<open>What lines 40 to 75 hand to the loops.\<close>

record decoded =
  dec_batch :: nat
  dec_h :: nat
  dec_w :: nat
  dec_chans :: nat
  dec_output :: "real list"
  dec_cls_max :: "real list list"
  dec_cls_max_idx :: "nat list list"

text \<open>
  Lines 40 to 75. The second component is the caller's tensor as the call leaves it:
  \<open>unsqueeze_\<close> changes its sizes in place, and the view shares its elements, so the
  in-place operations of lines 62 to 66 write into it.
\<close>

definition decode :: "BBoxConverter \<Rightarrow> tensor \<Rightarrow> (error + decoded) \<times> tensor" where
  "decode self output0 =
     (let output = (if length (shape output0) = 3 then output0\<lparr>shape := 1 # shape output0\<rparr>
                    else output0)
      in if length (shape output) < 4 then (Inl IndexError, output) else
      let batch = shape output ! 0;
          h = shape output ! 2;
          w = shape output ! 3;
          lx = lin_x h w;
          ly = lin_y h w;
          anchor_w = every_other (anchors self);
          anchor_h = every_other (drop 1 (anchors self))
      in if length anchor_w \<noteq> num_anchors self \<or> length anchor_h \<noteq> num_anchors self
         then (Inl ViewError, output) else
      let lx = (if is_cuda output then cuda lx else lx);
          ly = (if is_cuda output then cuda ly else ly);
          anchor_w = (if is_cuda output then cuda anchor_w else anchor_w);
          anchor_h = (if is_cuda output then cuda anchor_h else anchor_h);
          A = num_anchors self;
          den = batch * A * (h * w)
      in if den = 0 \<or> length (data output) mod den \<noteq> 0 then (Inl ViewError, output) else
      let K = length (data output) div den
      in case decode_channels A K h w lx ly anchor_w anchor_h (data output) of
           (Some e, d) \<Rightarrow> (Inl e, output\<lparr>data := d\<rparr>)
         | (None, d) \<Rightarrow>
             if num_classes self > 1 \<and> K \<le> 5 then (Inl IndexError, output\<lparr>data := d\<rparr>) else
             let scores = map (\<lambda>b. map (class_score (num_classes self) A K (h * w) d b)
                                       [0..<A * (h * w)]) [0..<batch]
             in (Inr \<lparr>dec_batch = batch, dec_h = h, dec_w = w, dec_chans = K, dec_output = d,
                       dec_cls_max = map (map fst) scores,
                       dec_cls_max_idx = map (map snd) scores\<rparr>,
                 output\<lparr>data := d\<rparr>))"

text \<open>The read \<open>output[b, a, 0:4, hw]\<close> with \<open>a = idx // (h*w)\<close>, \<open>hw = idx % (h*w)\<close>.\<close>

definition cand_box :: "nat \<Rightarrow> decoded \<Rightarrow> nat \<Rightarrow> nat \<Rightarrow> box" where
  "cand_box A dec b idx =
     (let HW = dec_h dec * dec_w dec; a = idx div HW; hw = idx mod HW;
          out = view_at (dec_output dec) A (dec_chans dec) HW b a
      in (out 0 hw, out 1 hw, out 2 hw, out 3 hw))"

subsection \<open>The suppression loops of \<open>_get_region_boxes_nms\<close> (lines 86 to 115)\<close>

text \<open>
  The loops run over one row of the sorted index tensor \<open>cls_max_sort_id[b]\<close>: the outer
  loop over the whole row, the inner loop over what follows the current position. Here
  the row is a list, the outer loop a recursion over it and the inner loop a recursion
  over its tail. \<open>sc\<close> is the row \<open>cls_max[b]\<close>, which the inner loop overwrites with the
  sentinel \<open>-1\<close>; \<open>box_of idx\<close> stands for the read \<open>output[b, a, 0:4, hw]\<close> with
  \<open>a = idx // (h*w)\<close> and \<open>hw = idx % (h*w)\<close>, and \<open>cls_of idx\<close> for
  \<open>cls_max_idx[b, idx]\<close>.
\<close>

text \<open>Lines 106 to 113.\<close>

fun nms_inner :: "(nat \<Rightarrow> box) \<Rightarrow> real \<Rightarrow> real \<Rightarrow> box \<Rightarrow> real list \<Rightarrow> nat list \<Rightarrow> real list" where
  "nms_inner box_of conf nms cur sc [] = sc"
| "nms_inner box_of conf nms cur sc (idx2 # rest) =
     (if sc ! idx2 \<ge> 0 \<and> sc ! idx2 < conf then sc
      else if sc ! idx2 \<ge> 0 \<and> bbox_iou cur (box_of idx2) > nms
        then nms_inner box_of conf nms cur (sc[idx2 := -1]) rest
        else nms_inner box_of conf nms cur sc rest)"

text \<open>Lines 97 to 104.\<close>

definition box_entry :: "box \<Rightarrow> real \<Rightarrow> nat \<Rightarrow> region_box" where
  "box_entry bx s c =
     (case bx of (x, y, w, h) \<Rightarrow>
        \<lparr>rb_x = x, rb_y = y, rb_w = w, rb_h = h, rb_score = s, rb_cls = c\<rparr>)"

text \<open>Lines 88 to 113.\<close>

fun nms_outer ::
  "(nat \<Rightarrow> box) \<Rightarrow> (nat \<Rightarrow> nat) \<Rightarrow> real \<Rightarrow> real \<Rightarrow> real list \<Rightarrow> nat list \<Rightarrow> region_box list
     \<Rightarrow> region_box list" where
  "nms_outer box_of cls_of conf nms sc [] box_batch = box_batch"
| "nms_outer box_of cls_of conf nms sc (idx # rest) box_batch =
     (if sc ! idx < 0 then nms_outer box_of cls_of conf nms sc rest box_batch
      else if sc ! idx < conf then box_batch
      else
        let box_batch = box_batch @ [box_entry (box_of idx) (sc ! idx) (cls_of idx)];
            sc = nms_inner box_of conf nms (rb_box (last box_batch)) sc rest
        in nms_outer box_of cls_of conf nms sc rest box_batch)"

text \<open>
  The same outer loop, recording the index of each candidate it emits instead of the
  entry: the survivors, named by their position in \<open>cls_max[b]\<close>.
\<close>

fun nms_keep :: "(nat \<Rightarrow> box) \<Rightarrow> real \<Rightarrow> real \<Rightarrow> real list \<Rightarrow> nat list \<Rightarrow> nat list" where
  "nms_keep box_of conf nms sc [] = []"
| "nms_keep box_of conf nms sc (idx # rest) =
     (if sc ! idx < 0 then nms_keep box_of conf nms sc rest
      else if sc ! idx < conf then []
      else idx # nms_keep box_of conf nms (nms_inner box_of conf nms (box_of idx) sc rest) rest)"

text \<open>
  The design the specification describes in place of the sentinel: the scores are never
  written, and the suppressed candidates are kept in a state of their own.
\<close>

fun nms_inner_flag ::
  "(nat \<Rightarrow> box) \<Rightarrow> real \<Rightarrow> real \<Rightarrow> box \<Rightarrow> real list \<Rightarrow> nat set \<Rightarrow> nat list \<Rightarrow> nat set" where
  "nms_inner_flag box_of conf nms cur sc supp [] = supp"
| "nms_inner_flag box_of conf nms cur sc supp (idx2 # rest) =
     (if idx2 \<notin> supp \<and> sc ! idx2 < conf then supp
      else if idx2 \<notin> supp \<and> bbox_iou cur (box_of idx2) > nms
        then nms_inner_flag box_of conf nms cur sc (insert idx2 supp) rest
        else nms_inner_flag box_of conf nms cur sc supp rest)"

fun nms_outer_flag ::
  "(nat \<Rightarrow> box) \<Rightarrow> (nat \<Rightarrow> nat) \<Rightarrow> real \<Rightarrow> real \<Rightarrow> real list \<Rightarrow> nat set \<Rightarrow> nat list \<Rightarrow> region_box list
     \<Rightarrow> region_box list" where
  "nms_outer_flag box_of cls_of conf nms sc supp [] box_batch = box_batch"
| "nms_outer_flag box_of cls_of conf nms sc supp (idx # rest) box_batch =
     (if idx \<in> supp then nms_outer_flag box_of cls_of conf nms sc supp rest box_batch
      else if sc ! idx < conf then box_batch
      else
        let box_batch = box_batch @ [box_entry (box_of idx) (sc ! idx) (cls_of idx)];
            supp = nms_inner_flag box_of conf nms (rb_box (last box_batch)) sc supp rest
        in nms_outer_flag box_of cls_of conf nms sc supp rest box_batch)"

text \<open>
  How the row \<open>cls_max[b]\<close> of the code stands for that state: the score of a suppressed
  candidate is overwritten with \<open>-1\<close>, every other score is as computed.
\<close>

definition sentinel_row :: "real list \<Rightarrow> nat set \<Rightarrow> real list" where
  "sentinel_row sc supp = map (\<lambda>(i, v). if i \<in> supp then -1 else v) (enumerate 0 sc)"

subsection \<open>The ranking (line 78)\<close>

text \<open>
  \<open>torch.sort(cls_max, 1, True)\<close> is a library routine. What is used of it is its
  contract: the indices it returns are a permutation of the positions of the row, in
  descending order of the values. The order it gives to equal values is not fixed by
  that contract, so the ranking is a parameter of the model, constrained by
  \<open>argsort_desc\<close>.
\<close>

definition argsort_desc :: "real list \<Rightarrow> nat list \<Rightarrow> bool" where
  "argsort_desc sc ids \<longleftrightarrow>
     distinct ids \<and> set ids = {..<length sc} \<and> sorted_wrt (\<lambda>i j. sc ! i \<ge> sc ! j) ids"

text \<open>A ranking is stable when equal scores keep the order of their positions.\<close>

definition stable_ranking :: "real list \<Rightarrow> nat list \<Rightarrow> bool" where
  "stable_ranking sc ids \<longleftrightarrow> sorted_wrt (\<lambda>i j. sc ! i = sc ! j \<longrightarrow> i < j) ids"


text \<open>One admissible ranking: the stable one, by insertion.\<close>

definition stable_argsort_desc :: "real list \<Rightarrow> nat list" where
  "stable_argsort_desc sc = sort_key (\<lambda>i. - sc ! i) [0..<length sc]"

subsection \<open>\<open>_get_region_boxes_nms\<close> and \<open>__call__\<close>\<close>

text \<open>
  Lines 38 to 117: decoding, ranking, and the loops for every image of the batch. The
  result is the list of boxes of each image or the error raised, and the caller's tensor
  as the call leaves it.
\<close>

definition get_region_boxes_nms ::
  "(real list \<Rightarrow> nat list) \<Rightarrow> BBoxConverter \<Rightarrow> tensor \<Rightarrow> (error + region_box list list) \<times> tensor" where
  "get_region_boxes_nms torch_sort self output =
     (case decode self output of
        (Inl e, output) \<Rightarrow> (Inl e, output)
      | (Inr dec, output) \<Rightarrow>
          let cls_max_sort_id = map torch_sort (dec_cls_max dec);
              boxes = map (\<lambda>b. nms_outer (cand_box (num_anchors self) dec b)
                                   (\<lambda>idx. dec_cls_max_idx dec ! b ! idx)
                                   (conf_thresh self) (nms_thresh self)
                                   (dec_cls_max dec ! b) (cls_max_sort_id ! b) [])
                        [0..<dec_batch dec]
          in (Inr boxes, output))"

text \<open>Lines 30 to 36.\<close>

definition BBoxConverter_call ::
  "(real list \<Rightarrow> nat list) \<Rightarrow> BBoxConverter \<Rightarrow> tensor \<Rightarrow> (error + region_box list list) \<times> tensor" where
  "BBoxConverter_call torch_sort self network_output =
     get_region_boxes_nms torch_sort self network_output"

section \<open>Verified properties\<close>

subsection \<open>Properties of \<open>bbox_iou\<close>\<close>







lemma bbox_iou_no_overlap:
  assumes "iou_iw a b \<le> 0 \<or> iou_ih a b \<le> 0"
  shows "bbox_iou a b = 0"
  using assms by (cases a, cases b) (auto simp: bbox_iou_def Let_def)

text \<open>
  The division of line 190 never divides by zero: a positive \<open>iw\<close> forces both widths
  to be positive and bounds \<open>iw\<close> by each of them, and likewise for the heights.
\<close>

lemma iou_iw_pos_bounds:
  assumes "0 < iou_iw (x1, y1, w1, h1) (x2, y2, w2, h2)"
  shows "0 < w1 \<and> 0 < w2 \<and> iou_iw (x1, y1, w1, h1) (x2, y2, w2, h2) \<le> w1
         \<and> iou_iw (x1, y1, w1, h1) (x2, y2, w2, h2) \<le> w2"
  using assms by (simp add: iou_iw_def Let_def min_def max_def split: if_splits)

lemma iou_ih_pos_bounds:
  assumes "0 < iou_ih (x1, y1, w1, h1) (x2, y2, w2, h2)"
  shows "0 < h1 \<and> 0 < h2 \<and> iou_ih (x1, y1, w1, h1) (x2, y2, w2, h2) \<le> h1
         \<and> iou_ih (x1, y1, w1, h1) (x2, y2, w2, h2) \<le> h2"
  using assms by (simp add: iou_ih_def Let_def min_def max_def split: if_splits)

lemma bbox_iou_denominator_pos:
  assumes "0 < iou_iw (x1, y1, w1, h1) (x2, y2, w2, h2)"
      and "0 < iou_ih (x1, y1, w1, h1) (x2, y2, w2, h2)"
  shows "0 < w1 * h1 + w2 * h2
             - iou_iw (x1, y1, w1, h1) (x2, y2, w2, h2) * iou_ih (x1, y1, w1, h1) (x2, y2, w2, h2)"
proof -
  let ?iw = "iou_iw (x1, y1, w1, h1) (x2, y2, w2, h2)"
  let ?ih = "iou_ih (x1, y1, w1, h1) (x2, y2, w2, h2)"
  from iou_iw_pos_bounds [OF assms(1)] have w: "0 < w1" "0 < w2" "?iw \<le> w1" by simp_all
  from iou_ih_pos_bounds [OF assms(2)] have h: "0 < h1" "0 < h2" "?ih \<le> h1" by simp_all
  have "?iw * ?ih \<le> w1 * h1"
    using w h assms by (intro mult_mono) simp_all
  moreover have "0 < w2 * h2" using w h by simp
  ultimately show ?thesis by linarith
qed

lemma bbox_iou_disjoint_x:
  assumes "0 \<le> w1" "0 \<le> w2" "(w1 + w2) / 2 \<le> \<bar>x1 - x2\<bar>"
  shows "bbox_iou (x1, y1, w1, h1) (x2, y2, w2, h2) = 0"
proof -
  have "iou_iw (x1, y1, w1, h1) (x2, y2, w2, h2) \<le> 0"
    using assms by (simp add: iou_iw_def Let_def min_def max_def abs_if split: if_splits)
  then show ?thesis by (simp add: bbox_iou_no_overlap)
qed



subsection \<open>Properties of \<open>BBoxToBrambox\<close>\<close>













subsection \<open>The suppression loops: basic facts\<close>

lemma list_update_sentinel:
  "(sc[i := (-1::real)]) ! j = sc ! j \<or> (sc[i := -1]) ! j = -1"
  by (cases "i < length sc") (auto simp: nth_list_update list_update_beyond)

lemma nms_inner_length [simp]:
  "length (nms_inner box_of conf nms cur sc ids) = length sc"
  by (induction ids arbitrary: sc) auto

lemma nms_inner_rel:
  "nms_inner box_of conf nms cur sc ids ! j = sc ! j
   \<or> nms_inner box_of conf nms cur sc ids ! j = -1"
proof (induction ids arbitrary: sc)
  case Nil
  then show ?case by simp
next
  case (Cons idx2 rest)
  show ?case
  proof (cases "sc ! idx2 \<ge> 0 \<and> sc ! idx2 < conf")
    case True
    then show ?thesis by simp
  next
    case nb: False
    show ?thesis
    proof (cases "sc ! idx2 \<ge> 0 \<and> bbox_iou cur (box_of idx2) > nms")
      case True
      from Cons.IH [of "sc[idx2 := -1]"] list_update_sentinel [of sc idx2 j]
      show ?thesis using nb True by auto
    next
      case False
      with nb Cons.IH [of sc] show ?thesis by auto
    qed
  qed
qed


lemma nms_inner_nonneg_same:
  "0 \<le> nms_inner box_of conf nms cur sc ids ! j \<Longrightarrow>
   nms_inner box_of conf nms cur sc ids ! j = sc ! j"
  using nms_inner_rel [of box_of conf nms cur sc ids j] by auto

lemma nms_keep_score:
  "j \<in> set (nms_keep box_of conf nms sc ids) \<Longrightarrow> 0 \<le> sc ! j \<and> conf \<le> sc ! j"
proof (induction ids arbitrary: sc)
  case Nil
  then show ?case by simp
next
  case (Cons idx rest)
  show ?case
  proof (cases "sc ! idx < 0")
    case True
    with Cons show ?thesis by simp
  next
    case nn: False
    show ?thesis
    proof (cases "sc ! idx < conf")
      case True
      with nn Cons.prems show ?thesis by simp
    next
      case False
      let ?sc' = "nms_inner box_of conf nms (box_of idx) sc rest"
      from nn False Cons.prems
      consider "j = idx" | "j \<in> set (nms_keep box_of conf nms ?sc' rest)" by auto
      then show ?thesis
      proof cases
        case 1
        with nn False show ?thesis by simp
      next
        case 2
        from Cons.IH [OF 2] have "0 \<le> ?sc' ! j" "conf \<le> ?sc' ! j" by simp_all
        with nms_inner_nonneg_same [of box_of conf nms "box_of idx" sc rest j]
        show ?thesis by simp
      qed
    qed
  qed
qed

lemma rb_box_entry [simp]: "rb_box (box_entry bx s c) = bx"
  by (cases bx) (simp add: rb_box_def box_entry_def)

lemma rb_score_entry [simp]: "rb_score (box_entry bx s c) = s"
  by (cases bx) (simp add: box_entry_def)

lemma rb_cls_entry [simp]: "rb_cls (box_entry bx s c) = c"
  by (cases bx) (simp add: box_entry_def)

lemma nms_outer_keep:
  "nms_outer box_of cls_of conf nms sc ids acc =
     acc @ map (\<lambda>i. box_entry (box_of i) (sc ! i) (cls_of i)) (nms_keep box_of conf nms sc ids)"
proof (induction ids arbitrary: sc acc)
  case Nil
  then show ?case by simp
next
  case (Cons idx rest)
  show ?case
  proof (cases "sc ! idx < 0 \<or> sc ! idx < conf")
    case True
    then show ?thesis using Cons.IH [of sc acc] by auto
  next
    case False
    let ?sc' = "nms_inner box_of conf nms (box_of idx) sc rest"
    let ?acc' = "acc @ [box_entry (box_of idx) (sc ! idx) (cls_of idx)]"
    have same: "map (\<lambda>i. box_entry (box_of i) (?sc' ! i) (cls_of i)) (nms_keep box_of conf nms ?sc' rest)
              = map (\<lambda>i. box_entry (box_of i) (sc ! i) (cls_of i)) (nms_keep box_of conf nms ?sc' rest)"
    proof (rule map_cong [OF refl])
      fix i assume "i \<in> set (nms_keep box_of conf nms ?sc' rest)"
      then have "0 \<le> ?sc' ! i" using nms_keep_score by blast
      then have "?sc' ! i = sc ! i" by (rule nms_inner_nonneg_same)
      then show "box_entry (box_of i) (?sc' ! i) (cls_of i) = box_entry (box_of i) (sc ! i) (cls_of i)"
        by simp
    qed
    from False have "nms_outer box_of cls_of conf nms sc (idx # rest) acc
        = nms_outer box_of cls_of conf nms ?sc' rest ?acc'"
      by (simp add: Let_def)
    also have "\<dots> = ?acc' @ map (\<lambda>i. box_entry (box_of i) (?sc' ! i) (cls_of i))
                               (nms_keep box_of conf nms ?sc' rest)"
      by (rule Cons.IH)
    finally show ?thesis using False same by simp
  qed
qed

lemma nms_keep_subseq: "subseq (nms_keep box_of conf nms sc ids) ids"
  by (induction ids arbitrary: sc) auto

lemma subseq_distinct: "subseq xs ys \<Longrightarrow> distinct ys \<Longrightarrow> distinct xs"
proof (induction rule: list_emb.induct)
  case (list_emb_Cons2 x y xs ys)
  then show ?case using list_emb_set [of "(=)" xs ys] by auto
qed auto

lemma subseq_sorted_wrt: "subseq xs ys \<Longrightarrow> sorted_wrt R ys \<Longrightarrow> sorted_wrt R xs"
proof (induction rule: list_emb.induct)
  case (list_emb_Cons2 x y xs ys)
  then show ?case using list_emb_set [of "(=)" xs ys] by auto
qed auto

lemma subseq_all_filter:
  assumes "subseq xs ys" "\<forall>x \<in> set xs. P x"
  shows "length xs \<le> length (filter P ys)"
proof -
  from assms(2) have "filter P xs = xs" by (simp add: filter_id_conv)
  with subseq_filter [OF assms(1), of P] have "subseq xs (filter P ys)" by simp
  then show ?thesis by (rule list_emb_length)
qed

subsection \<open>The decoding: indices\<close>

lemma concat_replicate_nth:
  "i < h * length xs \<Longrightarrow> concat (replicate h xs) ! i = xs ! (i mod length xs)"
proof (induction h arbitrary: i)
  case 0
  then show ?case by simp
next
  case (Suc h)
  show ?case
  proof (cases "i < length xs")
    case True
    then show ?thesis by (simp add: nth_append)
  next
    case False
    then have "i - length xs < h * length xs" using Suc.prems by simp
    from Suc.IH [OF this] False show ?thesis
      by (simp add: nth_append le_mod_geq)
  qed
qed

lemma length_lin_x [simp]: "length (lin_x h w) = h * w"
  by (induction h) (simp_all add: lin_x_def)

lemma length_lin_y [simp]: "length (lin_y h w) = h * w"
  by (induction h) (simp_all add: lin_y_def)

lemma lin_x_nth:
  assumes a: "hw < h * w"
  shows "lin_x h w ! hw = real (hw mod w)"
proof -
  from a have "0 < w" by (cases w) auto
  then have "hw mod w < w" by simp
  with a concat_replicate_nth [of hw h "map real [0..<w]"] show ?thesis
    by (simp add: lin_x_def)
qed

lemma lin_y_nth: "hw < h * w \<Longrightarrow> lin_y h w ! hw = real (hw div w)"
proof (induction h)
  case 0
  then show ?case by simp
next
  case (Suc h)
  have len: "length (concat (map (\<lambda>r. replicate w (real r)) [0..<h])) = h * w"
    using length_lin_y [of h w] by (simp add: lin_y_def)
  show ?case
  proof (cases "hw < h * w")
    case True
    with Suc.IH len show ?thesis by (simp add: lin_y_def nth_append)
  next
    case False
    then have ge: "h * w \<le> hw" by simp
    from Suc.prems have lt: "hw < h * w + w" by simp
    have w: "0 < w" using Suc.prems by (cases w) auto
    have "hw div w = h"
    proof (rule div_nat_eqI)
      show "w * h \<le> hw" using ge by (simp add: mult.commute)
      show "hw < w * Suc h" using lt by (simp add: mult.commute)
    qed
    moreover have "hw - h * w < w" using lt ge by simp
    ultimately show ?thesis using False len by (simp add: lin_y_def nth_append)
  qed
qed

lemma cell_index_bound:
  assumes "r < h" "c < (w::nat)"
  shows "r * w + c < h * w"
proof -
  have "r * w + c < Suc r * w" using assms(2) by simp
  also have "\<dots> \<le> h * w" using assms(1) by (intro mult_le_mono1) simp
  finally show ?thesis .
qed

lemma lin_x_cell: "r < h \<Longrightarrow> c < w \<Longrightarrow> lin_x h w ! (r * w + c) = real c"
  by (simp add: lin_x_nth cell_index_bound)

lemma lin_y_cell: "r < h \<Longrightarrow> c < w \<Longrightarrow> lin_y h w ! (r * w + c) = real r"
  by (simp add: lin_y_nth cell_index_bound)


lemma chan_map_length [simp]: "length (chan_map A K HW k f d) = length d"
  by (simp add: chan_map_def)

lemma chan_map_nth:
  "i < length d \<Longrightarrow>
   chan_map A K HW k f d ! i =
     (if (i div HW) mod K = k then f ((i div (K * HW)) mod A) (i mod HW) (d ! i) else d ! i)"
  by (simp add: chan_map_def nth_enumerate_eq)

lemma div_add_lt: "r < n \<Longrightarrow> (q * n + r) div n = (q::nat)"
  by simp

lemma view_index_chan:
  assumes "k < K" "hw < (HW::nat)"
  shows "((((b * A + a) * K + k) * HW + hw) div HW) mod K = k"
  using assms by simp

lemma view_index_cell:
  assumes "hw < (HW::nat)"
  shows "(((b * A + a) * K + k) * HW + hw) mod HW = hw"
  using assms by simp

lemma view_index_anchor:
  assumes "a < A" "k < K" "hw < (HW::nat)"
  shows "((((b * A + a) * K + k) * HW + hw) div (K * HW)) mod A = a"
proof -
  have lt: "k * HW + hw < K * HW" using assms(2,3) by (rule cell_index_bound)
  have "((b * A + a) * K + k) * HW + hw = (b * A + a) * (K * HW) + (k * HW + hw)"
    by (simp add: algebra_simps)
  moreover have "((b * A + a) * (K * HW) + (k * HW + hw)) div (K * HW) = b * A + a"
    using lt by (rule div_add_lt)
  ultimately have "(((b * A + a) * K + k) * HW + hw) div (K * HW) = b * A + a"
    by (simp only:)
  then show ?thesis using assms(1) by simp
qed

lemma view_index_bound:
  assumes "b < B" "a < A" "k < K" "hw < (HW::nat)"
  shows "((b * A + a) * K + k) * HW + hw < B * A * K * HW"
proof -
  have "b * A + a < B * A" using assms(1,2) by (rule cell_index_bound)
  then have "(b * A + a) * K + k < B * A * K" using assms(3) by (rule cell_index_bound)
  then show ?thesis using assms(4) by (rule cell_index_bound)
qed

lemma view_at_chan_map:
  assumes len: "length d = B * A * K * HW"
      and idx: "b < B" "a < A" "k' < K" "hw < HW"
  shows "view_at (chan_map A K HW k f d) A K HW b a k' hw =
           (if k' = k then f a hw (view_at d A K HW b a k' hw) else view_at d A K HW b a k' hw)"
proof -
  let ?i = "((b * A + a) * K + k') * HW + hw"
  have "?i < length d" using view_index_bound [OF idx] len by simp
  then show ?thesis
    unfolding view_at_def
    by (simp only: chan_map_nth view_index_chan [OF idx(3,4)] view_index_cell [OF idx(4)]
        view_index_anchor [OF idx(2,3,4)])
qed

lemma elem_view_at:
  assumes "shape t = [B, A * K, H, W]"
  shows "elem t b (a * K + k) r c = view_at (data t) A K (H * W) b a k (r * W + c)"
proof -
  have "((b * (A * K) + (a * K + k)) * H + r) * W + c = ((b * A + a) * K + k) * (H * W) + (r * W + c)"
    by (simp add: algebra_simps)
  then show ?thesis using assms by (simp add: elem_def view_at_def add.assoc)
qed

lemma decode_channels_length [simp]:
  "length (snd (decode_channels A K h w lx ly aw ah d)) = length d"
  by (simp add: decode_channels_def Let_def)

lemma decode_channels_ok:
  "5 \<le> K \<Longrightarrow> fst (decode_channels A K h w lx ly aw ah d) = None"
  by (simp add: decode_channels_def Let_def)

lemma decode_channels_err:
  "K < 5 \<Longrightarrow> fst (decode_channels A K h w lx ly aw ah d) = Some IndexError"
  by (simp add: decode_channels_def Let_def)

lemma decode_channels_view:
  assumes K: "5 \<le> K"
      and len: "length d = B * A * K * (h * w)"
      and idx: "b < B" "a < A" "k < K" "hw < h * w"
  shows "view_at (snd (decode_channels A K h w lx ly aw ah d)) A K (h * w) b a k hw =
           (let v = view_at d A K (h * w) b a k hw in
            if k = 0 then (sigmoid v + lx ! hw) / real w
            else if k = 1 then (sigmoid v + ly ! hw) / real h
            else if k = 2 then exp v * aw ! a / real w
            else if k = 3 then exp v * ah ! a / real h
            else if k = 4 then sigmoid v
            else v)"
proof -
  note vc = view_at_chan_map [where B = B, OF _ idx(1,2) _ idx(4)]
  from K have "snd (decode_channels A K h w lx ly aw ah d) =
      chan_map A K (h * w) 4 (\<lambda>a hw v. sigmoid v)
       (chan_map A K (h * w) 3 (\<lambda>a hw v. exp v * ah ! a / real h)
         (chan_map A K (h * w) 2 (\<lambda>a hw v. exp v * aw ! a / real w)
           (chan_map A K (h * w) 1 (\<lambda>a hw v. (sigmoid v + ly ! hw) / real h)
             (chan_map A K (h * w) 0 (\<lambda>a hw v. (sigmoid v + lx ! hw) / real w) d))))"
    by (simp add: decode_channels_def Let_def)
  then show ?thesis
    using len K idx(3) by (simp add: vc Let_def)
qed

lemma length_every_other: "length (every_other xs) = (length xs + 1) div 2"
  by (induction xs rule: every_other.induct) simp_all

lemma every_other_nth: "2 * a < length xs \<Longrightarrow> every_other xs ! a = xs ! (2 * a)"
proof (induction xs arbitrary: a rule: every_other.induct)
  case (3 x y zs)
  then show ?case by (cases a) simp_all
qed simp_all


lemma anchor_lengths:
  "length (every_other xs) = A \<and> length (every_other (drop 1 xs)) = A \<longleftrightarrow> length xs = 2 * A"
proof -
  have "length (every_other (drop 1 xs)) = length xs div 2"
    by (cases xs) (simp_all add: length_every_other)
  moreover have "(length xs + 1) div 2 = A \<and> length xs div 2 = A \<longleftrightarrow> length xs = 2 * A"
    by arith
  ultimately show ?thesis
    by (simp add: length_every_other)
qed

lemma anchor_w_nth:
  "length xs = 2 * A \<Longrightarrow> a < A \<Longrightarrow> every_other xs ! a = xs ! (2 * a)"
  by (simp add: every_other_nth)

lemma anchor_h_nth:
  assumes "length xs = 2 * A" "a < A"
  shows "every_other (drop 1 xs) ! a = xs ! (2 * a + 1)"
proof -
  have "2 * a < length (drop 1 xs)" using assms by simp
  then have "every_other (drop 1 xs) ! a = drop 1 xs ! (2 * a)" by (rule every_other_nth)
  also have "\<dots> = xs ! (1 + 2 * a)" using assms by (intro nth_drop) simp
  finally show ?thesis by (simp add: add.commute)
qed

subsection \<open>The decoding: success, ranges of the scores\<close>

lemma view_total:
  assumes "wf_tensor t" "shape t = [B, A * K, H, W]"
  shows "length (data t) = K * (B * A * (H * W))"
  using assms by (simp add: wf_tensor_def algebra_simps)

lemma decode_success:
  assumes wf: "wf_tensor t" and sh: "shape t = [B, A * K, H, W]"
      and A: "num_anchors self = A" and anc: "length (anchors self) = 2 * A"
      and pos: "0 < B" "0 < A" "0 < H" "0 < W"
      and K: "5 \<le> K" "num_classes self > 1 \<longrightarrow> 6 \<le> K"
  shows "\<exists>dec. decode self t = (Inr dec, t\<lparr>data := dec_output dec\<rparr>)
           \<and> dec_batch dec = B \<and> dec_h dec = H \<and> dec_w dec = W \<and> dec_chans dec = K
           \<and> dec_output dec = snd (decode_channels A K H W (lin_x H W) (lin_y H W)
                 (every_other (anchors self)) (every_other (drop 1 (anchors self))) (data t))
           \<and> dec_cls_max dec = map (\<lambda>b. map (\<lambda>idx. fst (class_score (num_classes self) A K (H * W) (dec_output dec) b idx))
                                  [0..<A * (H * W)]) [0..<B]
           \<and> dec_cls_max_idx dec = map (\<lambda>b. map (\<lambda>idx. snd (class_score (num_classes self) A K (H * W) (dec_output dec) b idx))
                                  [0..<A * (H * W)]) [0..<B]"
proof -
  let ?aw = "every_other (anchors self)" and ?ah = "every_other (drop 1 (anchors self))"
  let ?den = "B * A * (H * W)"
  define d' where "d' = snd (decode_channels A K H W (lin_x H W) (lin_y H W) ?aw ?ah (data t))"
  have tot: "length (data t) = K * ?den" using wf sh by (rule view_total)
  have den: "0 < ?den" using pos by simp
  have m: "length (data t) mod ?den = 0" and dv: "length (data t) div ?den = K"
    using den by (simp_all only: tot mod_mult_self2_is_0 nonzero_mult_div_cancel_right)
  have al: "length ?aw = A" "length ?ah = A"
    using anchor_lengths [of "anchors self" A] anc by simp_all
  have dc: "decode_channels A K H W (lin_x H W) (lin_y H W) ?aw ?ah (data t) = (None, d')"
    using decode_channels_ok [OF K(1), of A H W "lin_x H W" "lin_y H W" ?aw ?ah "data t"]
    by (simp add: d'_def prod_eq_iff)
  have nk: "\<not> (Suc 0 < num_classes self \<and> K \<le> 5)" using K by auto
  have "decode self t =
      (Inr \<lparr>dec_batch = B, dec_h = H, dec_w = W, dec_chans = K, dec_output = d',
            dec_cls_max = map (map fst) (map (\<lambda>b. map (class_score (num_classes self) A K (H * W) d' b)
                                       [0..<A * (H * W)]) [0..<B]),
            dec_cls_max_idx = map (map snd) (map (\<lambda>b. map (class_score (num_classes self) A K (H * W) d' b)
                                       [0..<A * (H * W)]) [0..<B])\<rparr>, t\<lparr>data := d'\<rparr>)"
    unfolding decode_def
    using den m dv al nk dc by (simp add: sh A cuda_def Let_def)
  then show ?thesis by (simp add: d'_def comp_def)
qed

lemma sigmoid_pos: "0 < sigmoid x"
  by (simp add: sigmoid_def add_pos_pos)

lemma sigmoid_less_one: "sigmoid x < 1"
  by (simp add: sigmoid_def add_pos_pos)

lemma sigmoid_near_one: "1 - exp (- x) < sigmoid x"
proof -
  have p: "0 < 1 + exp (- x)" by (simp add: add_pos_pos)
  have "(1 - exp (- x)) * (1 + exp (- x)) = 1 - exp (- x) * exp (- x)"
    by (simp add: algebra_simps)
  also have "\<dots> < 1" by simp
  finally have "1 - exp (- x) < 1 / (1 + exp (- x))"
    using p by (simp add: pos_less_divide_eq)
  then show ?thesis by (simp add: sigmoid_def)
qed

lemma list_max_Max: "xs \<noteq> [] \<Longrightarrow> list_max xs = Max (set xs)"
  by (induction xs rule: list_max.induct) simp_all

lemma list_max_in: "xs \<noteq> [] \<Longrightarrow> list_max xs \<in> set xs"
  by (simp add: list_max_Max)

lemma sum_list_exp_nonneg: "0 \<le> sum_list (map exp (xs :: real list))"
  by (induction xs) simp_all

lemma sum_list_exp_pos: "xs \<noteq> [] \<Longrightarrow> 0 < sum_list (map exp (xs :: real list))"
proof (cases xs)
  case Nil
  assume "xs \<noteq> []"
  with Nil show ?thesis by simp
next
  case (Cons y ys)
  have "0 < exp y" by simp
  with sum_list_exp_nonneg [of ys] show ?thesis
    unfolding Cons by (simp add: add_pos_nonneg)
qed

lemma exp_le_sum_list: "x \<in> set xs \<Longrightarrow> exp x \<le> sum_list (map exp (xs :: real list))"
proof (induction xs)
  case Nil
  then show ?case by simp
next
  case (Cons y ys)
  show ?case
  proof (cases "x = y")
    case True
    with sum_list_exp_nonneg [of ys] show ?thesis by simp
  next
    case False
    with Cons have "exp x \<le> sum_list (map exp ys)" by simp
    then show ?thesis by (simp add: add_increasing)
  qed
qed

lemma softmax_range:
  assumes "p \<in> set (softmax xs)"
  shows "0 < p \<and> p \<le> 1"
proof -
  from assms obtain x where x: "x \<in> set xs" and p: "p = exp x / sum_list (map exp xs)"
    by (auto simp: softmax_def)
  from x have ne: "xs \<noteq> []" by auto
  from sum_list_exp_pos [OF ne] exp_le_sum_list [OF x] show ?thesis
    by (simp add: p)
qed

lemma softmax_max_range:
  assumes "xs \<noteq> []"
  shows "0 < list_max (softmax xs) \<and> list_max (softmax xs) \<le> 1"
proof -
  from assms have "softmax xs \<noteq> []" by (simp add: softmax_def)
  then have "list_max (softmax xs) \<in> set (softmax xs)" by (rule list_max_in)
  then show ?thesis by (rule softmax_range)
qed

lemma cand_index:
  assumes "a < A" "hw < (HW::nat)"
  shows "a * HW + hw < A * HW" "(a * HW + hw) div HW = a" "(a * HW + hw) mod HW = hw"
  using assms by (simp_all add: cell_index_bound)

subsection \<open>The decoding: the formulas\<close>

lemma decoded_elem:
  assumes wf: "wf_tensor t" and sh: "shape t = [B, A * K, H, W]"
      and K: "5 \<le> K"
      and idx: "b < B" "a < A" "k < K" "r < H" "c < W"
  shows "elem (t\<lparr>data := snd (decode_channels A K H W (lin_x H W) (lin_y H W) aw ah (data t))\<rparr>)
            b (a * K + k) r c =
           (let v = elem t b (a * K + k) r c in
            if k = 0 then (sigmoid v + real c) / real W
            else if k = 1 then (sigmoid v + real r) / real H
            else if k = 2 then exp v * aw ! a / real W
            else if k = 3 then exp v * ah ! a / real H
            else if k = 4 then sigmoid v
            else v)"
proof -
  let ?d = "snd (decode_channels A K H W (lin_x H W) (lin_y H W) aw ah (data t))"
  have hw: "r * W + c < H * W" using idx(4,5) by (rule cell_index_bound)
  have len: "length (data t) = B * A * K * (H * W)"
    using view_total [OF wf sh] by (simp add: algebra_simps)
  have "elem (t\<lparr>data := ?d\<rparr>) b (a * K + k) r c = view_at ?d A K (H * W) b a k (r * W + c)"
    using elem_view_at [of "t\<lparr>data := ?d\<rparr>" B A K H W b a k r c] sh by simp
  also have "\<dots> = (let v = view_at (data t) A K (H * W) b a k (r * W + c) in
            if k = 0 then (sigmoid v + lin_x H W ! (r * W + c)) / real W
            else if k = 1 then (sigmoid v + lin_y H W ! (r * W + c)) / real H
            else if k = 2 then exp v * aw ! a / real W
            else if k = 3 then exp v * ah ! a / real H
            else if k = 4 then sigmoid v
            else v)"
    using K len idx(1,2,3) hw by (rule decode_channels_view)
  finally show ?thesis
    using idx(4,5) elem_view_at [OF sh, of b a k r c]
    by (simp only: lin_x_cell lin_y_cell)
qed


lemma decoded_score:
  assumes wf: "wf_tensor t" and sh: "shape t = [B, A * K, H, W]"
      and K: "5 \<le> K" "ncls > 1 \<longrightarrow> 6 \<le> K"
      and idx: "b < B" "a < A" "r < H" "c < W"
  shows "fst (class_score ncls A K (H * W)
               (snd (decode_channels A K H W (lin_x H W) (lin_y H W) aw ah (data t)))
               b (a * (H * W) + (r * W + c))) =
           (if ncls > 1
            then Max (set (softmax (map (\<lambda>j. elem t b (a * K + (5 + j)) r c) [0..<K - 5])))
                   * sigmoid (elem t b (a * K + 4) r c)
            else sigmoid (elem t b (a * K + 4) r c))"
proof -
  let ?d = "snd (decode_channels A K H W (lin_x H W) (lin_y H W) aw ah (data t))"
  let ?t' = "t\<lparr>data := ?d\<rparr>"
  have hw: "r * W + c < H * W" using idx(3,4) by (rule cell_index_bound)
  note ci = cand_index [OF idx(2) hw] mod_less [OF hw]
  have sh': "shape ?t' = [B, A * K, H, W]" using sh by simp
  have v: "view_at ?d A K (H * W) b a k (r * W + c) = elem ?t' b (a * K + k) r c" for k
    using elem_view_at [OF sh', of b a k r c] by simp
  have obj: "elem ?t' b (a * K + 4) r c = sigmoid (elem t b (a * K + 4) r c)"
    using decoded_elem [OF wf sh K(1) idx(1,2) _ idx(3,4), of 4 aw ah] K(1) by simp
  have logit: "elem ?t' b (a * K + (5 + j)) r c = elem t b (a * K + (5 + j)) r c" if "j < K - 5" for j
    using decoded_elem [OF wf sh K(1) idx(1,2) _ idx(3,4), of "5 + j" aw ah] that by simp
  have logits: "map (\<lambda>j. elem ?t' b (a * K + (5 + j)) r c) [0..<K - 5]
              = map (\<lambda>j. elem t b (a * K + (5 + j)) r c) [0..<K - 5]"
    by (rule map_cong [OF refl]) (simp add: logit)
  show ?thesis
  proof (cases "ncls > 1")
    case True
    with K(2) have "[0..<K - 5] \<noteq> []" by simp
    then have ne: "softmax (map (\<lambda>j. elem t b (a * K + (5 + j)) r c) [0..<K - 5]) \<noteq> []"
      by (simp add: softmax_def)
    show ?thesis
      using True list_max_Max [OF ne]
      by (simp add: class_score_def Let_def ci torch_max_def logits v obj)
  next
    case False
    then show ?thesis
      by (simp add: class_score_def Let_def ci v obj)
  qed
qed


lemma exp_minus_ten: "exp (- 10 :: real) < 1 / 1000"
proof -
  have "(2::real) \<le> exp 1" using exp_ge_add_one_self [of "1::real"] by simp
  then have "(2::real) ^ 10 \<le> exp 1 ^ 10" by (intro power_mono) simp_all
  also have "exp (1::real) ^ 10 = exp 10" using exp_of_nat_mult [of 10 "1::real"] by simp
  finally have "(1000::real) < exp 10" by simp
  then have "1 / exp (10::real) < 1 / 1000" by (intro divide_strict_left_mono) simp_all
  then show ?thesis by (simp add: exp_minus inverse_eq_divide)
qed

text \<open>
  Claim C1. On a well-formed input of sizes \<open>(B, A*K, H, W)\<close> with at least five channels
  per anchor, the decoding succeeds and, for every image \<open>b\<close>, anchor \<open>a\<close> and cell (row
  \<open>r\<close>, column \<open>c\<close>): the centre is \<open>(sigmoid raw_x + c) / W\<close> and
  \<open>(sigmoid raw_y + r) / H\<close>, the size is \<open>exp raw_w * anchor_w[a] / W\<close> and
  \<open>exp raw_h * anchor_h[a] / H\<close>, the objectness is \<open>sigmoid raw_obj\<close>, which lies between
  \<open>1 - exp (- raw_obj)\<close> and 1; these four values are the box of the candidate in the
  loops; and the combined score is the objectness times the largest softmax value of
  the class logits when there is more than one class, the objectness alone otherwise.
\<close>

theorem tensor_decoder_formulas:
  assumes wf: "wf_tensor t" and sh: "shape t = [B, A * K, H, W]"
      and A: "num_anchors self = A" and anc: "length (anchors self) = 2 * A"
      and K: "5 \<le> K" "num_classes self > 1 \<longrightarrow> 6 \<le> K"
      and idx: "b < B" "a < A" "r < H" "c < W"
  shows "\<exists>dec t'. decode self t = (Inr dec, t')
           \<and> elem t' b (a * K) r c = (sigmoid (elem t b (a * K) r c) + real c) / real W
           \<and> elem t' b (a * K + 1) r c = (sigmoid (elem t b (a * K + 1) r c) + real r) / real H
           \<and> elem t' b (a * K + 2) r c = exp (elem t b (a * K + 2) r c) * anchors self ! (2 * a) / real W
           \<and> elem t' b (a * K + 3) r c = exp (elem t b (a * K + 3) r c) * anchors self ! (2 * a + 1) / real H
           \<and> elem t' b (a * K + 4) r c = sigmoid (elem t b (a * K + 4) r c)
           \<and> 1 - exp (- elem t b (a * K + 4) r c) < elem t' b (a * K + 4) r c
           \<and> elem t' b (a * K + 4) r c < 1
           \<and> cand_box A dec b (a * (H * W) + (r * W + c)) =
                (elem t' b (a * K) r c, elem t' b (a * K + 1) r c,
                 elem t' b (a * K + 2) r c, elem t' b (a * K + 3) r c)
           \<and> dec_cls_max dec ! b ! (a * (H * W) + (r * W + c)) =
                (if num_classes self > 1
                 then Max (set (softmax (map (\<lambda>j. elem t b (a * K + (5 + j)) r c) [0..<K - 5])))
                        * sigmoid (elem t b (a * K + 4) r c)
                 else sigmoid (elem t b (a * K + 4) r c))"
proof -
  let ?aw = "every_other (anchors self)" and ?ah = "every_other (drop 1 (anchors self))"
  let ?d = "snd (decode_channels A K H W (lin_x H W) (lin_y H W) ?aw ?ah (data t))"
  let ?t' = "t\<lparr>data := ?d\<rparr>"
  have pos: "0 < B" "0 < A" "0 < H" "0 < W" using idx by simp_all
  from decode_success [OF wf sh A anc pos K] obtain dec where
    dec: "decode self t = (Inr dec, t\<lparr>data := dec_output dec\<rparr>)"
    and dims: "dec_batch dec = B" "dec_h dec = H" "dec_w dec = W" "dec_chans dec = K"
    and out: "dec_output dec = ?d"
    and cm: "dec_cls_max dec = map (\<lambda>b. map (\<lambda>idx. fst (class_score (num_classes self) A K (H * W) (dec_output dec) b idx))
                                  [0..<A * (H * W)]) [0..<B]"
    by blast
  have hw: "r * W + c < H * W" using idx(3,4) by (rule cell_index_bound)
  note ci = cand_index [OF idx(2) hw] mod_less [OF hw]
  note de = decoded_elem [OF wf sh K(1) idx(1,2) _ idx(3,4), of _ ?aw ?ah]
  have e0: "elem ?t' b (a * K) r c = (sigmoid (elem t b (a * K) r c) + real c) / real W"
    using de [of 0] K(1) by simp
  have e1: "elem ?t' b (a * K + 1) r c = (sigmoid (elem t b (a * K + 1) r c) + real r) / real H"
    using de [of 1] K(1) by simp
  have e2: "elem ?t' b (a * K + 2) r c = exp (elem t b (a * K + 2) r c) * anchors self ! (2 * a) / real W"
    using de [of 2] K(1) anchor_w_nth [OF anc idx(2)] by simp
  have e3: "elem ?t' b (a * K + 3) r c = exp (elem t b (a * K + 3) r c) * anchors self ! (2 * a + 1) / real H"
    using de [of 3] K(1) anchor_h_nth [OF anc idx(2)] by simp
  have e4: "elem ?t' b (a * K + 4) r c = sigmoid (elem t b (a * K + 4) r c)"
    using de [of 4] K(1) by simp
  have sh': "shape ?t' = [B, A * K, H, W]" using sh by simp
  have v: "view_at ?d A K (H * W) b a k (r * W + c) = elem ?t' b (a * K + k) r c" for k
    using elem_view_at [OF sh', of b a k r c] by simp
  have cb: "cand_box A dec b (a * (H * W) + (r * W + c)) =
                (elem ?t' b (a * K) r c, elem ?t' b (a * K + 1) r c,
                 elem ?t' b (a * K + 2) r c, elem ?t' b (a * K + 3) r c)"
    using v [of 0] v [of 1] v [of 2] v [of 3]
    by (simp add: cand_box_def Let_def dims out ci)
  have sc: "dec_cls_max dec ! b ! (a * (H * W) + (r * W + c)) =
       fst (class_score (num_classes self) A K (H * W) ?d b (a * (H * W) + (r * W + c)))"
    using idx(1) ci(1) by (simp add: cm out)
  note ds = decoded_score [OF wf sh K(1) _ idx, of "num_classes self" ?aw ?ah]
  show ?thesis
    apply (rule exI [of _ dec], rule exI [of _ ?t'])
    using dec e0 e1 e2 e3 e4 cb sc ds K(2) sigmoid_near_one [of "elem t b (a * K + 4) r c"]
      sigmoid_less_one [of "elem t b (a * K + 4) r c"]
    by (simp add: out)
qed


theorem tensor_decoder_formulas_witness:
  "wf_tensor \<lparr>shape = [1, 5, 1, 1], data = [0, 0, 0, 0, 10], is_cuda = False\<rparr>
   \<and> decode \<lparr>conf_thresh = 1 / 2, nms_thresh = 1 / 2, anchors = [1, 1], num_classes = 1, num_anchors = 1\<rparr>
        \<lparr>shape = [1, 5, 1, 1], data = [0, 0, 0, 0, 10], is_cuda = False\<rparr> =
       (Inr \<lparr>dec_batch = 1, dec_h = 1, dec_w = 1, dec_chans = 5,
              dec_output = [1 / 2, 1 / 2, 1, 1, sigmoid 10],
              dec_cls_max = [[sigmoid 10]], dec_cls_max_idx = [[0]]\<rparr>,
        \<lparr>shape = [1, 5, 1, 1], data = [1 / 2, 1 / 2, 1, 1, sigmoid 10], is_cuda = False\<rparr>)
   \<and> 999 / 1000 < sigmoid 10 \<and> sigmoid 10 < 1"
proof -
  let ?cv = "\<lparr>conf_thresh = 1 / 2, nms_thresh = 1 / 2, anchors = [1, 1], num_classes = 1, num_anchors = 1\<rparr>"
  let ?t = "\<lparr>shape = [1, 5, 1, 1], data = [0, 0, 0, 0, 10], is_cuda = False\<rparr>"
  let ?T = "\<lparr>shape = [1, 5, 1, 1], data = [1 / 2, 1 / 2, 1, 1, sigmoid 10], is_cuda = False\<rparr>"
  have wf: "wf_tensor ?t" by (simp add: wf_tensor_def)
  have ev: "decode ?cv ?t =
       (Inr \<lparr>dec_batch = 1, dec_h = 1, dec_w = 1, dec_chans = 5,
              dec_output = [1 / 2, 1 / 2, 1, 1, sigmoid 10],
              dec_cls_max = [[sigmoid 10]], dec_cls_max_idx = [[0]]\<rparr>, ?T)"
    by (simp add: decode_def Let_def lin_x_def lin_y_def decode_channels_def chan_map_def
        class_score_def view_at_def sigmoid_def)
  from tensor_decoder_formulas [of ?t 1 1 5 1 1 ?cv 0 0 0 0] wf
  obtain dec t' where d: "decode ?cv ?t = (Inr dec, t')"
    and lo: "1 - exp (- elem ?t 0 4 0 0) < elem t' 0 4 0 0"
    and hi: "elem t' 0 4 0 0 < 1"
    by auto
  from d ev have t': "t' = ?T" by simp
  have "elem ?t 0 4 0 0 = 10" "elem ?T 0 4 0 0 = sigmoid 10"
    by (simp_all add: elem_def)
  with lo hi t' have "1 - exp (- 10) < sigmoid 10" "sigmoid 10 < 1" by simp_all
  with exp_minus_ten wf ev show ?thesis by simp
qed

subsection \<open>The survivors: confidence filtering\<close>

lemma get_region_boxes_nms_Inr:
  assumes "get_region_boxes_nms torch_sort self t = (Inr boxes, t')"
  shows "\<exists>dec. decode self t = (Inr dec, t')
           \<and> boxes = map (\<lambda>b. nms_outer (cand_box (num_anchors self) dec b)
                                   (\<lambda>idx. dec_cls_max_idx dec ! b ! idx)
                                   (conf_thresh self) (nms_thresh self)
                                   (dec_cls_max dec ! b) (torch_sort (dec_cls_max dec ! b)) [])
                        [0..<dec_batch dec]
           \<and> length (dec_cls_max dec) = dec_batch dec"
proof (cases "decode self t")
  case (Pair res t'')
  show ?thesis
  proof (cases res)
    case (Inl e)
    with Pair assms show ?thesis by (simp add: get_region_boxes_nms_def)
  next
    case (Inr dec)
    have len: "length (dec_cls_max dec) = dec_batch dec"
      using Pair Inr
      by (auto simp: decode_def Let_def split: if_splits prod.splits option.splits)
    have "map (\<lambda>b. nms_outer (cand_box (num_anchors self) dec b)
                                   (\<lambda>idx. dec_cls_max_idx dec ! b ! idx)
                                   (conf_thresh self) (nms_thresh self)
                                   (dec_cls_max dec ! b) (map torch_sort (dec_cls_max dec) ! b) [])
                        [0..<dec_batch dec]
        = map (\<lambda>b. nms_outer (cand_box (num_anchors self) dec b)
                                   (\<lambda>idx. dec_cls_max_idx dec ! b ! idx)
                                   (conf_thresh self) (nms_thresh self)
                                   (dec_cls_max dec ! b) (torch_sort (dec_cls_max dec ! b)) [])
                        [0..<dec_batch dec]"
      by (rule map_cong [OF refl]) (simp add: len)
    with Pair Inr assms len show ?thesis
      by (auto simp: get_region_boxes_nms_def Let_def)
  qed
qed

lemma nms_outer_scores:
  "d \<in> set (nms_outer box_of cls_of conf nms sc ids []) \<Longrightarrow> conf \<le> rb_score d \<and> 0 \<le> rb_score d"
  using nms_keep_score [of _ box_of conf nms sc ids]
  by (auto simp: nms_outer_keep)


text \<open>
  Claim C3. Whatever the threshold, every candidate the loops emit has a combined score
  of at least \<open>conf_thresh\<close>: this holds for the indices of the survivors, for the score
  field of the boxes the loops return, which are the entries of exactly those
  survivors, and for every box of every image that \<open>_get_region_boxes_nms\<close> returns.
\<close>

theorem confidence_filtering:
  "(\<forall>idx \<in> set (nms_keep box_of conf nms sc ids). conf \<le> sc ! idx)
   \<and> (\<forall>d \<in> set (nms_outer box_of cls_of conf nms sc ids []). conf \<le> rb_score d)
   \<and> nms_outer box_of cls_of conf nms sc ids [] =
         map (\<lambda>i. box_entry (box_of i) (sc ! i) (cls_of i)) (nms_keep box_of conf nms sc ids)
   \<and> (get_region_boxes_nms torch_sort self t = (Inr boxes, t') \<longrightarrow>
         (\<forall>img \<in> set boxes. \<forall>d \<in> set img. conf_thresh self \<le> rb_score d))"
proof -
  have a: "\<forall>idx \<in> set (nms_keep box_of conf nms sc ids). conf \<le> sc ! idx"
    using nms_keep_score by blast
  have b: "\<forall>d \<in> set (nms_outer box_of cls_of conf nms sc ids []). conf \<le> rb_score d"
    using nms_outer_scores by blast
  have c: "nms_outer box_of cls_of conf nms sc ids [] =
         map (\<lambda>i. box_entry (box_of i) (sc ! i) (cls_of i)) (nms_keep box_of conf nms sc ids)"
    by (simp add: nms_outer_keep)
  have d: "\<forall>img \<in> set boxes. \<forall>d \<in> set img. conf_thresh self \<le> rb_score d"
    if "get_region_boxes_nms torch_sort self t = (Inr boxes, t')"
  proof -
    from get_region_boxes_nms_Inr [OF that] obtain dec where
      "boxes = map (\<lambda>b. nms_outer (cand_box (num_anchors self) dec b)
                                   (\<lambda>idx. dec_cls_max_idx dec ! b ! idx)
                                   (conf_thresh self) (nms_thresh self)
                                   (dec_cls_max dec ! b) (torch_sort (dec_cls_max dec ! b)) [])
                        [0..<dec_batch dec]" by blast
    then show ?thesis using nms_outer_scores by auto
  qed
  from a b c d show ?thesis by blast
qed

theorem confidence_filtering_witness:
  "nms_keep (\<lambda>i. if i = 0 then (1, 1, 2, 2) else if i = 1 then (5, 5, 2, 2) else (9, 9, 2, 2))
      (1 / 2) (1 / 2) [9 / 10, 1 / 10, 6 / 10] [0, 2, 1] = [0, 2]
   \<and> 1 / 2 \<le> [9 / 10, 1 / 10, 6 / 10 :: real] ! 0
   \<and> 1 / 2 \<le> [9 / 10, 1 / 10, 6 / 10 :: real] ! 2
   \<and> get_region_boxes_nms stable_argsort_desc
        \<lparr>conf_thresh = 1 / 4, nms_thresh = 1 / 2, anchors = [1, 1], num_classes = 1, num_anchors = 1\<rparr>
        \<lparr>shape = [5, 1, 1], data = [0, 0, 0, 0, 0], is_cuda = False\<rparr> =
       (Inr [[\<lparr>rb_x = 1 / 2, rb_y = 1 / 2, rb_w = 1, rb_h = 1, rb_score = 1 / 2, rb_cls = 0\<rparr>]],
        \<lparr>shape = [1, 5, 1, 1], data = [1 / 2, 1 / 2, 1, 1, 1 / 2], is_cuda = False\<rparr>)
   \<and> (1 / 4 :: real) \<le> rb_score \<lparr>rb_x = 1 / 2, rb_y = 1 / 2, rb_w = 1, rb_h = 1, rb_score = 1 / 2, rb_cls = 0\<rparr>"
proof -
  let ?bx = "\<lambda>i::nat. if i = 0 then (1, 1, 2, 2) else if i = 1 then (5, 5, 2, 2) else (9, 9, 2, 2 :: real)"
  let ?cv = "\<lparr>conf_thresh = 1 / 4, nms_thresh = 1 / 2, anchors = [1, 1], num_classes = 1, num_anchors = 1\<rparr>"
  let ?t = "\<lparr>shape = [5, 1, 1], data = [0, 0, 0, 0, 0], is_cuda = False\<rparr>"
  let ?T = "\<lparr>shape = [1, 5, 1, 1], data = [1 / 2, 1 / 2, 1, 1, 1 / 2], is_cuda = False\<rparr>"
  let ?b = "\<lparr>rb_x = 1 / 2, rb_y = 1 / 2, rb_w = 1, rb_h = 1, rb_score = 1 / 2, rb_cls = 0\<rparr>"
  have k: "nms_keep ?bx (1 / 2) (1 / 2) [9 / 10, 1 / 10, 6 / 10] [0, 2, 1] = [0, 2]"
    by (simp add: bbox_iou_def iou_iw_def iou_ih_def Let_def)
  have dv: "decode ?cv ?t =
       (Inr \<lparr>dec_batch = 1, dec_h = 1, dec_w = 1, dec_chans = 5,
              dec_output = [1 / 2, 1 / 2, 1, 1, 1 / 2],
              dec_cls_max = [[1 / 2]], dec_cls_max_idx = [[0]]\<rparr>, ?T)"
    by (simp add: decode_def Let_def lin_x_def lin_y_def decode_channels_def chan_map_def
        class_score_def view_at_def sigmoid_def)
  have ev: "get_region_boxes_nms stable_argsort_desc ?cv ?t = (Inr [[?b]], ?T)"
    unfolding get_region_boxes_nms_def dv
    by (simp add: stable_argsort_desc_def cand_box_def Let_def view_at_def box_entry_def)
  from confidence_filtering [of ?bx "1 / 2" "1 / 2" "[9 / 10, 1 / 10, 6 / 10]" "[0, 2, 1]"
      "\<lambda>i. 0" stable_argsort_desc ?cv ?t "[[?b]]" ?T] k ev
  have "1 / 2 \<le> [9 / 10, 1 / 10, 6 / 10 :: real] ! 0" "1 / 2 \<le> [9 / 10, 1 / 10, 6 / 10 :: real] ! 2"
    "(1 / 4 :: real) \<le> rb_score ?b"
    by simp_all
  with k ev show ?thesis by simp
qed

subsection \<open>The ranking and the survivors\<close>

lemma stable_argsort_desc_valid: "argsort_desc sc (stable_argsort_desc sc)"
proof -
  have "sorted (map (\<lambda>i. - sc ! i) (stable_argsort_desc sc))"
    by (simp add: stable_argsort_desc_def)
  then have "sorted_wrt (\<lambda>i j. sc ! i \<ge> sc ! j) (stable_argsort_desc sc)"
    by (simp add: sorted_map)
  moreover have "distinct (stable_argsort_desc sc)"
    by (simp add: stable_argsort_desc_def)
  moreover have "set (stable_argsort_desc sc) = {..<length sc}"
    by (auto simp: stable_argsort_desc_def)
  ultimately show ?thesis by (simp add: argsort_desc_def)
qed

lemma insort_key_lex:
  assumes "sorted_wrt (\<lambda>i j. f i < f j \<or> (f i = f j \<and> i < j)) ys"
      and "\<forall>y \<in> set ys. (x::nat) < y"
  shows "sorted_wrt (\<lambda>i j. f i < f j \<or> (f i = f j \<and> i < j)) (insort_key (f :: nat \<Rightarrow> real) x ys)"
  using assms
proof (induction ys)
  case Nil
  then show ?case by simp
next
  case (Cons y ys)
  show ?case
  proof (cases "f x \<le> f y")
    case True
    have "f x < f z \<or> (f x = f z \<and> x < z)" if "z \<in> set (y # ys)" for z
    proof -
      have "f y \<le> f z" using that Cons.prems(1) by auto
      moreover have "x < z" using that Cons.prems(2) by auto
      ultimately show ?thesis using True by auto
    qed
    with True Cons.prems(1) show ?thesis by simp
  next
    case False
    then have "f y < f x" by simp
    moreover have "sorted_wrt (\<lambda>i j. f i < f j \<or> (f i = f j \<and> i < j)) (insort_key f x ys)"
      using Cons by simp
    ultimately show ?thesis using False Cons.prems(1) by (auto simp: set_insort_key)
  qed
qed

lemma sort_key_upt_lex:
  "sorted_wrt (\<lambda>i j. f i < f j \<or> (f i = f j \<and> i < j)) (sort_key (f :: nat \<Rightarrow> real) [m..<n])"
proof (induction "n - m" arbitrary: m)
  case 0
  then show ?case by simp
next
  case (Suc k)
  then have lt: "m < n" and k: "k = n - Suc m" by simp_all
  from Suc.hyps(1) [OF k] have
    s: "sorted_wrt (\<lambda>i j. f i < f j \<or> (f i = f j \<and> i < j)) (sort_key f [Suc m..<n])" .
  have eq: "sort_key f [m..<n] = insort_key f m (sort_key f [Suc m..<n])"
    using lt by (simp add: upt_conv_Cons sort_key_def)
  have "\<forall>y \<in> set (sort_key f [Suc m..<n]). m < y" by simp
  with s show ?case unfolding eq by (rule insort_key_lex)
qed

lemma stable_argsort_desc_stable: "stable_ranking sc (stable_argsort_desc sc)"
proof -
  have "sorted_wrt (\<lambda>i j. - sc ! i < - sc ! j \<or> (- sc ! i = - sc ! j \<and> i < j))
          (stable_argsort_desc sc)"
    using sort_key_upt_lex [of "\<lambda>i. - sc ! i" 0 "length sc"]
    by (simp add: stable_argsort_desc_def)
  then show ?thesis
    unfolding stable_ranking_def
    by (rule sorted_wrt_mono_rel [rotated]) auto
qed

lemma nms_keep_invariant:
  assumes rk: "argsort_desc sc ids"
  shows "subseq (nms_keep box_of conf nms sc ids) ids"
    and "sorted_wrt (\<lambda>i j. sc ! i \<ge> sc ! j) (nms_keep box_of conf nms sc ids)"
    and "distinct (nms_keep box_of conf nms sc ids)"
    and "length (nms_keep box_of conf nms sc ids) \<le> card {i. i < length sc \<and> conf \<le> sc ! i}"
proof -
  let ?keep = "nms_keep box_of conf nms sc ids"
  from rk have d: "distinct ids" and s: "set ids = {..<length sc}"
    and o: "sorted_wrt (\<lambda>i j. sc ! i \<ge> sc ! j) ids"
    by (simp_all add: argsort_desc_def)
  show sub: "subseq ?keep ids" by (rule nms_keep_subseq)
  from sub o show so: "sorted_wrt (\<lambda>i j. sc ! i \<ge> sc ! j) ?keep" by (rule subseq_sorted_wrt)
  from sub d show "distinct ?keep" by (rule subseq_distinct)
  have "\<forall>i \<in> set ?keep. conf \<le> sc ! i" using nms_keep_score by blast
  with sub have "length ?keep \<le> length (filter (\<lambda>i. conf \<le> sc ! i) ids)"
    by (rule subseq_all_filter)
  also have "\<dots> = card ({i. conf \<le> sc ! i} \<inter> set ids)"
    using d by (rule distinct_length_filter)
  also have "{i. conf \<le> sc ! i} \<inter> set ids = {i. i < length sc \<and> conf \<le> sc ! i}"
    using s by auto
  finally show "length ?keep \<le> card {i. i < length sc \<and> conf \<le> sc ! i}" .
qed

text \<open>
  Claim C6. When the ranking is a descending sort of the positions of the row, the
  survivors are a subsequence of the ranking, in descending order of score, no index
  occurs twice among them, and they are at most as many as the candidates whose score
  is at least \<open>conf_thresh\<close>; the boxes returned are the entries of these survivors, in
  this order. The same holds for every image of a call of \<open>_get_region_boxes_nms\<close>.
\<close>

theorem survivors_invariant:
  "(argsort_desc sc ids \<longrightarrow>
      (let keep = nms_keep box_of conf nms sc ids in
         subseq keep ids
       \<and> sorted_wrt (\<lambda>i j. sc ! i \<ge> sc ! j) keep
       \<and> distinct keep
       \<and> length keep \<le> card {i. i < length sc \<and> conf \<le> sc ! i}
       \<and> nms_outer box_of cls_of conf nms sc ids [] =
           map (\<lambda>i. box_entry (box_of i) (sc ! i) (cls_of i)) keep
       \<and> sorted_wrt (\<lambda>d e. rb_score d \<ge> rb_score e) (nms_outer box_of cls_of conf nms sc ids [])))
   \<and> ((\<forall>s. argsort_desc s (torch_sort s)) \<and> get_region_boxes_nms torch_sort self t = (Inr boxes, t') \<longrightarrow>
      (\<exists>dec. decode self t = (Inr dec, t') \<and> length boxes = dec_batch dec
         \<and> (\<forall>b < dec_batch dec.
              (let s = dec_cls_max dec ! b;
                   keep = nms_keep (cand_box (num_anchors self) dec b) (conf_thresh self)
                            (nms_thresh self) s (torch_sort s)
               in boxes ! b = map (\<lambda>i. box_entry (cand_box (num_anchors self) dec b i) (s ! i)
                                          (dec_cls_max_idx dec ! b ! i)) keep
                \<and> subseq keep (torch_sort s)
                \<and> distinct keep
                \<and> sorted_wrt (\<lambda>d e. rb_score d \<ge> rb_score e) (boxes ! b)
                \<and> length (boxes ! b) \<le> card {i. i < length s \<and> conf_thresh self \<le> s ! i}))))"
proof (intro conjI impI)
  assume "argsort_desc sc ids"
  from nms_keep_invariant [OF this, of box_of conf nms]
  show "let keep = nms_keep box_of conf nms sc ids in
         subseq keep ids
       \<and> sorted_wrt (\<lambda>i j. sc ! i \<ge> sc ! j) keep
       \<and> distinct keep
       \<and> length keep \<le> card {i. i < length sc \<and> conf \<le> sc ! i}
       \<and> nms_outer box_of cls_of conf nms sc ids [] =
           map (\<lambda>i. box_entry (box_of i) (sc ! i) (cls_of i)) keep
       \<and> sorted_wrt (\<lambda>d e. rb_score d \<ge> rb_score e) (nms_outer box_of cls_of conf nms sc ids [])"
    by (simp add: Let_def nms_outer_keep sorted_wrt_map)
next
  assume a: "(\<forall>s. argsort_desc s (torch_sort s)) \<and> get_region_boxes_nms torch_sort self t = (Inr boxes, t')"
  then have srt: "argsort_desc s (torch_sort s)" for s by simp
  from a get_region_boxes_nms_Inr [of torch_sort self t boxes t'] obtain dec where
    dec: "decode self t = (Inr dec, t')"
    and bx: "boxes = map (\<lambda>b. nms_outer (cand_box (num_anchors self) dec b)
                                   (\<lambda>idx. dec_cls_max_idx dec ! b ! idx)
                                   (conf_thresh self) (nms_thresh self)
                                   (dec_cls_max dec ! b) (torch_sort (dec_cls_max dec ! b)) [])
                        [0..<dec_batch dec]" by blast
  have "let s = dec_cls_max dec ! b;
            keep = nms_keep (cand_box (num_anchors self) dec b) (conf_thresh self)
                            (nms_thresh self) s (torch_sort s)
        in boxes ! b = map (\<lambda>i. box_entry (cand_box (num_anchors self) dec b i) (s ! i)
                                          (dec_cls_max_idx dec ! b ! i)) keep
                \<and> subseq keep (torch_sort s)
                \<and> distinct keep
                \<and> sorted_wrt (\<lambda>d e. rb_score d \<ge> rb_score e) (boxes ! b)
                \<and> length (boxes ! b) \<le> card {i. i < length s \<and> conf_thresh self \<le> s ! i}"
    if b: "b < dec_batch dec" for b
  proof -
    let ?s = "dec_cls_max dec ! b"
    from b bx have e: "boxes ! b = nms_outer (cand_box (num_anchors self) dec b)
                                   (\<lambda>idx. dec_cls_max_idx dec ! b ! idx)
                                   (conf_thresh self) (nms_thresh self) ?s (torch_sort ?s) []"
      by simp
    from nms_keep_invariant [OF srt [of ?s], of "cand_box (num_anchors self) dec b"
        "conf_thresh self" "nms_thresh self"]
    show ?thesis
      unfolding e Let_def by (simp add: nms_outer_keep sorted_wrt_map)
  qed
  with dec bx show "\<exists>dec. decode self t = (Inr dec, t') \<and> length boxes = dec_batch dec
         \<and> (\<forall>b < dec_batch dec.
              (let s = dec_cls_max dec ! b;
                   keep = nms_keep (cand_box (num_anchors self) dec b) (conf_thresh self)
                            (nms_thresh self) s (torch_sort s)
               in boxes ! b = map (\<lambda>i. box_entry (cand_box (num_anchors self) dec b i) (s ! i)
                                          (dec_cls_max_idx dec ! b ! i)) keep
                \<and> subseq keep (torch_sort s)
                \<and> distinct keep
                \<and> sorted_wrt (\<lambda>d e. rb_score d \<ge> rb_score e) (boxes ! b)
                \<and> length (boxes ! b) \<le> card {i. i < length s \<and> conf_thresh self \<le> s ! i}))"
    by (intro exI [of _ dec]) simp
qed

lemma upt_0_2: "[0..<2] = [0, Suc 0]"
  by (simp add: upt_rec)

theorem survivors_invariant_witness:
  "argsort_desc [9 / 10, 8 / 10, 6 / 10, 1 / 10] [0, 1, 2, 3]
   \<and> nms_keep (\<lambda>i. if i = 0 then (1, 1, 2, 2) else if i = 1 then (1, 1, 2, 2)
                    else if i = 2 then (9, 9, 2, 2) else (20, 20, 2, 2))
        (1 / 2) (1 / 2) [9 / 10, 8 / 10, 6 / 10, 1 / 10] [0, 1, 2, 3] = [0, 2]
   \<and> subseq [0, 2 :: nat] [0, 1, 2, 3]
   \<and> length [0, 2 :: nat] \<le> card {i. i < length [9 / 10, 8 / 10, 6 / 10, 1 / 10 :: real]
                                     \<and> 1 / 2 \<le> [9 / 10, 8 / 10, 6 / 10, 1 / 10 :: real] ! i}
   \<and> (\<forall>s. argsort_desc s (stable_argsort_desc s))
   \<and> get_region_boxes_nms stable_argsort_desc
        \<lparr>conf_thresh = 1 / 4, nms_thresh = 1 / 5, anchors = [1, 1, 2, 2], num_classes = 1,
         num_anchors = 2\<rparr>
        \<lparr>shape = [10, 1, 1], data = [0, 0, 0, 0, 0, 0, 0, 0, 0, 0], is_cuda = False\<rparr> =
       (Inr [[\<lparr>rb_x = 1 / 2, rb_y = 1 / 2, rb_w = 1, rb_h = 1, rb_score = 1 / 2, rb_cls = 0\<rparr>]],
        \<lparr>shape = [1, 10, 1, 1], data = [1 / 2, 1 / 2, 1, 1, 1 / 2, 1 / 2, 1 / 2, 2, 2, 1 / 2],
         is_cuda = False\<rparr>)
   \<and> length [\<lparr>rb_x = 1 / 2, rb_y = 1 / 2, rb_w = 1, rb_h = 1, rb_score = 1 / 2, rb_cls = 0\<rparr>]
        \<le> card {i. i < length [1 / 2, 1 / 2 :: real] \<and> 1 / 4 \<le> [1 / 2, 1 / 2 :: real] ! i}"
proof -
  let ?bx = "\<lambda>i::nat. if i = 0 then (1, 1, 2, 2) else if i = 1 then (1, 1, 2, 2)
                    else if i = 2 then (9, 9, 2, 2) else (20, 20, 2, 2 :: real)"
  let ?sc = "[9 / 10, 8 / 10, 6 / 10, 1 / 10 :: real]"
  let ?cv = "\<lparr>conf_thresh = 1 / 4, nms_thresh = 1 / 5, anchors = [1, 1, 2, 2], num_classes = 1,
         num_anchors = 2\<rparr>"
  let ?t = "\<lparr>shape = [10, 1, 1], data = [0, 0, 0, 0, 0, 0, 0, 0, 0, 0], is_cuda = False\<rparr>"
  let ?T = "\<lparr>shape = [1, 10, 1, 1], data = [1 / 2, 1 / 2, 1, 1, 1 / 2, 1 / 2, 1 / 2, 2, 2, 1 / 2],
         is_cuda = False\<rparr>"
  let ?b = "\<lparr>rb_x = 1 / 2, rb_y = 1 / 2, rb_w = 1, rb_h = 1, rb_score = 1 / 2, rb_cls = 0\<rparr>"
  let ?dec = "\<lparr>dec_batch = 1, dec_h = 1, dec_w = 1, dec_chans = 5,
              dec_output = [1 / 2, 1 / 2, 1, 1, 1 / 2, 1 / 2, 1 / 2, 2, 2, 1 / 2],
              dec_cls_max = [[1 / 2, 1 / 2]], dec_cls_max_idx = [[0, 0]]\<rparr>"
  have rk: "argsort_desc ?sc [0, 1, 2, 3]"
    by (auto simp: argsort_desc_def)
  have k: "nms_keep ?bx (1 / 2) (1 / 2) ?sc [0, 1, 2, 3] = [0, 2]"
    by (simp add: bbox_iou_def iou_iw_def iou_ih_def Let_def)
  have dv: "decode ?cv ?t = (Inr ?dec, ?T)"
    by (simp add: decode_def Let_def lin_x_def lin_y_def decode_channels_def chan_map_def
        class_score_def view_at_def sigmoid_def upt_0_2)
  have ev: "get_region_boxes_nms stable_argsort_desc ?cv ?t = (Inr [[?b]], ?T)"
    unfolding get_region_boxes_nms_def dv
    by (simp add: stable_argsort_desc_def cand_box_def Let_def view_at_def box_entry_def
        bbox_iou_def iou_iw_def iou_ih_def rb_box_def upt_0_2)
  have st: "\<forall>s. argsort_desc s (stable_argsort_desc s)"
    by (simp add: stable_argsort_desc_valid)
  note th = survivors_invariant [where sc = ?sc and ids = "[0, 1, 2, 3]" and box_of = ?bx
      and conf = "1 / 2" and nms = "1 / 2" and cls_of = "\<lambda>i. 0" and torch_sort = stable_argsort_desc
      and self = ?cv and t = ?t and boxes = "[[?b]]" and t' = ?T]
  from th [THEN conjunct1, rule_format, OF rk]
  have a: "subseq [0, 2 :: nat] [0, 1, 2, 3]"
    and c: "length [0, 2 :: nat] \<le> card {i. i < length ?sc \<and> 1 / 2 \<le> ?sc ! i}"
    unfolding Let_def k by blast+
  from th [THEN conjunct2, rule_format, OF conjI [OF st ev]]
  obtain dec where d: "decode ?cv ?t = (Inr dec, ?T)"
    and q: "\<forall>b < dec_batch dec.
              (let s = dec_cls_max dec ! b;
                   keep = nms_keep (cand_box (num_anchors ?cv) dec b) (conf_thresh ?cv)
                            (nms_thresh ?cv) s (stable_argsort_desc s)
               in [[?b]] ! b = map (\<lambda>i. box_entry (cand_box (num_anchors ?cv) dec b i) (s ! i)
                                          (dec_cls_max_idx dec ! b ! i)) keep
                \<and> subseq keep (stable_argsort_desc s)
                \<and> distinct keep
                \<and> sorted_wrt (\<lambda>d e. rb_score d \<ge> rb_score e) ([[?b]] ! b)
                \<and> length ([[?b]] ! b) \<le> card {i. i < length s \<and> conf_thresh ?cv \<le> s ! i})"
    by blast
  from d dv have de: "dec = ?dec" by simp
  have b0: "0 < dec_batch dec" by (simp add: de)
  from q [rule_format, OF b0]
  have "length ([[?b]] ! 0) \<le> card {i. i < length (dec_cls_max dec ! 0)
        \<and> conf_thresh ?cv \<le> dec_cls_max dec ! 0 ! i}"
    unfolding Let_def by blast
  then have p: "length [?b] \<le> card {i. i < length [1 / 2, 1 / 2 :: real]
        \<and> 1 / 4 \<le> [1 / 2, 1 / 2 :: real] ! i}"
    by (simp add: de)
  from rk k a c st ev p show ?thesis by (intro conjI)
qed

subsection \<open>Two candidates of identical box\<close>



















subsection \<open>The sentinel and the explicit state\<close>

lemma sentinel_row_length [simp]: "length (sentinel_row sc supp) = length sc"
  by (simp add: sentinel_row_def)

lemma sentinel_row_nth:
  "j < length sc \<Longrightarrow> sentinel_row sc supp ! j = (if j \<in> supp then -1 else sc ! j)"
  by (simp add: sentinel_row_def nth_enumerate_eq)

lemma sentinel_row_empty [simp]: "sentinel_row sc {} = sc"
  by (rule nth_equalityI) (simp_all add: sentinel_row_nth)

lemma sentinel_row_insert:
  "i < length sc \<Longrightarrow> (sentinel_row sc supp)[i := -1] = sentinel_row sc (insert i supp)"
  by (rule nth_equalityI) (auto simp: sentinel_row_nth nth_list_update)

lemma sentinel_test:
  assumes "j < length sc" "0 \<le> sc ! j"
  shows "sentinel_row sc supp ! j < 0 \<longleftrightarrow> j \<in> supp"
    and "0 \<le> sentinel_row sc supp ! j \<longleftrightarrow> j \<notin> supp"
    and "j \<notin> supp \<Longrightarrow> sentinel_row sc supp ! j = sc ! j"
  using assms by (simp_all add: sentinel_row_nth)

lemma nms_inner_refines:
  assumes "\<forall>j \<in> set ids. j < length sc \<and> 0 \<le> sc ! j"
  shows "nms_inner box_of conf nms cur (sentinel_row sc supp) ids
         = sentinel_row sc (nms_inner_flag box_of conf nms cur sc supp ids)"
  using assms
proof (induction ids arbitrary: supp)
  case Nil
  then show ?case by simp
next
  case (Cons idx2 rest)
  then have r: "idx2 < length sc" "0 \<le> sc ! idx2"
    and rest: "\<forall>j \<in> set rest. j < length sc \<and> 0 \<le> sc ! j" by simp_all
  note t = sentinel_test [OF r, of supp]
  show ?case
  proof (cases "idx2 \<in> supp")
    case True
    with t Cons.IH [OF rest, of supp] show ?thesis by simp
  next
    case False
    with t have v: "sentinel_row sc supp ! idx2 = sc ! idx2" by simp
    show ?thesis
      using False v r Cons.IH [OF rest, of supp] Cons.IH [OF rest, of "insert idx2 supp"]
      by (simp add: sentinel_row_insert)
  qed
qed

lemma nms_outer_refines:
  assumes "\<forall>j \<in> set ids. j < length sc \<and> 0 \<le> sc ! j"
  shows "nms_outer box_of cls_of conf nms (sentinel_row sc supp) ids acc
         = nms_outer_flag box_of cls_of conf nms sc supp ids acc"
  using assms
proof (induction ids arbitrary: supp acc)
  case Nil
  then show ?case by simp
next
  case (Cons idx rest)
  then have r: "idx < length sc" "0 \<le> sc ! idx"
    and rest: "\<forall>j \<in> set rest. j < length sc \<and> 0 \<le> sc ! j" by simp_all
  note t = sentinel_test [OF r, of supp]
  show ?case
  proof (cases "idx \<in> supp")
    case True
    with t Cons.IH [OF rest, of supp acc] show ?thesis by simp
  next
    case False
    with t have v: "sentinel_row sc supp ! idx = sc ! idx" by simp
    show ?thesis
    proof (cases "sc ! idx < conf")
      case True
      with False v r show ?thesis by simp
    next
      case nc: False
      let ?acc = "acc @ [box_entry (box_of idx) (sc ! idx) (cls_of idx)]"
      let ?supp = "nms_inner_flag box_of conf nms (box_of idx) sc supp rest"
      have "nms_outer box_of cls_of conf nms (sentinel_row sc supp) (idx # rest) acc
          = nms_outer box_of cls_of conf nms
              (nms_inner box_of conf nms (box_of idx) (sentinel_row sc supp) rest) rest ?acc"
        using False v r nc by (simp add: Let_def)
      also have "\<dots> = nms_outer box_of cls_of conf nms (sentinel_row sc ?supp) rest ?acc"
        by (simp add: nms_inner_refines [OF rest])
      also have "\<dots> = nms_outer_flag box_of cls_of conf nms sc ?supp rest ?acc"
        by (rule Cons.IH [OF rest])
      also have "\<dots> = nms_outer_flag box_of cls_of conf nms sc supp (idx # rest) acc"
        using False nc by (simp add: Let_def)
      finally show ?thesis .
    qed
  qed
qed

lemma decode_InrD:
  assumes "decode self t = (Inr dec, t')"
  shows "length (data t) = dec_batch dec * num_anchors self * dec_chans dec * (dec_h dec * dec_w dec)"
    and "5 \<le> dec_chans dec"
    and "num_classes self > 1 \<longrightarrow> 6 \<le> dec_chans dec"
    and "dec_output dec = snd (decode_channels (num_anchors self) (dec_chans dec) (dec_h dec) (dec_w dec)
           (lin_x (dec_h dec) (dec_w dec)) (lin_y (dec_h dec) (dec_w dec))
           (every_other (anchors self)) (every_other (drop 1 (anchors self))) (data t))"
    and "dec_cls_max dec = map (\<lambda>b. map (\<lambda>idx. fst (class_score (num_classes self) (num_anchors self)
            (dec_chans dec) (dec_h dec * dec_w dec) (dec_output dec) b idx))
              [0..<num_anchors self * (dec_h dec * dec_w dec)]) [0..<dec_batch dec]"
    and "data t' = dec_output dec"
    and "is_cuda t' = is_cuda t"
    and "shape t' = (if length (shape t) = 3 then 1 # shape t else shape t)"
proof -
  define s where "s = (if length (shape t) = 3 then 1 # shape t else shape t)"
  define B H W A where "B = s ! 0" and "H = s ! 2" and "W = s ! 3" and "A = num_anchors self"
  define den where "den = B * A * (H * W)"
  define K where "K = length (data t) div den"
  define dc where "dc = decode_channels A K H W (lin_x H W) (lin_y H W)
      (every_other (anchors self)) (every_other (drop 1 (anchors self))) (data t)"
  define u where "u = (if length (shape t) = 3 then t\<lparr>shape := 1 # shape t\<rparr> else t)"
  have us: "shape u = s" "data u = data t" "is_cuda u = is_cuda t" by (simp_all add: u_def s_def)
  have eq: "decode self t =
     (if length s < 4 then (Inl IndexError, u) else
      if length (every_other (anchors self)) \<noteq> A \<or> length (every_other (drop 1 (anchors self))) \<noteq> A
         then (Inl ViewError, u) else
      if den = 0 \<or> length (data t) mod den \<noteq> 0 then (Inl ViewError, u) else
      case dc of
           (Some e, d) \<Rightarrow> (Inl e, u\<lparr>data := d\<rparr>)
         | (None, d) \<Rightarrow>
             if num_classes self > 1 \<and> K \<le> 5 then (Inl IndexError, u\<lparr>data := d\<rparr>) else
             (Inr \<lparr>dec_batch = B, dec_h = H, dec_w = W, dec_chans = K, dec_output = d,
                       dec_cls_max = map (map fst) (map (\<lambda>b. map (class_score (num_classes self) A K (H * W) d b)
                                       [0..<A * (H * W)]) [0..<B]),
                       dec_cls_max_idx = map (map snd) (map (\<lambda>b. map (class_score (num_classes self) A K (H * W) d b)
                                       [0..<A * (H * W)]) [0..<B])\<rparr>,
                 u\<lparr>data := d\<rparr>))"
    unfolding decode_def Let_def cuda_def if_cancel
    by (simp only: u_def [symmetric] us B_def [symmetric] H_def [symmetric] W_def [symmetric]
        A_def [symmetric] den_def [symmetric] K_def [symmetric] dc_def [symmetric])
  from assms have c1: "\<not> length s < 4"
    and c2: "\<not> (length (every_other (anchors self)) \<noteq> A \<or> length (every_other (drop 1 (anchors self))) \<noteq> A)"
    and c3: "\<not> (den = 0 \<or> length (data t) mod den \<noteq> 0)"
    unfolding eq by (auto split: if_splits)
  obtain e d where dcv: "dc = (e, d)" by (cases dc)
  from assms c1 c2 c3 have e: "e = None" and c4: "\<not> (num_classes self > 1 \<and> K \<le> 5)"
    and dec: "dec = \<lparr>dec_batch = B, dec_h = H, dec_w = W, dec_chans = K, dec_output = d,
                       dec_cls_max = map (map fst) (map (\<lambda>b. map (class_score (num_classes self) A K (H * W) d b)
                                       [0..<A * (H * W)]) [0..<B]),
                       dec_cls_max_idx = map (map snd) (map (\<lambda>b. map (class_score (num_classes self) A K (H * W) d b)
                                       [0..<A * (H * W)]) [0..<B])\<rparr>"
    and t': "t' = u\<lparr>data := d\<rparr>"
    unfolding eq dcv by (auto split: if_splits option.splits)
  have K5: "5 \<le> K"
  proof (rule ccontr)
    assume "\<not> 5 \<le> K"
    then have "fst dc = Some IndexError" unfolding dc_def by (intro decode_channels_err) simp
    with dcv e show False by simp
  qed
  from c3 have "length (data t) = K * den"
    using div_mult_mod_eq [of "length (data t)" den] by (simp add: K_def)
  then show "length (data t) = dec_batch dec * num_anchors self * dec_chans dec * (dec_h dec * dec_w dec)"
    by (simp add: dec den_def A_def algebra_simps)
  from K5 show "5 \<le> dec_chans dec" by (simp add: dec)
  from c4 show "num_classes self > 1 \<longrightarrow> 6 \<le> dec_chans dec" by (auto simp: dec)
  from dcv show "dec_output dec = snd (decode_channels (num_anchors self) (dec_chans dec) (dec_h dec) (dec_w dec)
           (lin_x (dec_h dec) (dec_w dec)) (lin_y (dec_h dec) (dec_w dec))
           (every_other (anchors self)) (every_other (drop 1 (anchors self))) (data t))"
    by (simp add: dec dc_def A_def)
  show "dec_cls_max dec = map (\<lambda>b. map (\<lambda>idx. fst (class_score (num_classes self) (num_anchors self)
            (dec_chans dec) (dec_h dec * dec_w dec) (dec_output dec) b idx))
              [0..<num_anchors self * (dec_h dec * dec_w dec)]) [0..<dec_batch dec]"
    by (simp add: dec A_def comp_def)
  show "data t' = dec_output dec" by (simp add: t' dec)
  show "is_cuda t' = is_cuda t" by (simp add: t' us)
  show "shape t' = (if length (shape t) = 3 then 1 # shape t else shape t)"
    by (simp add: t' us s_def)
qed

lemma class_score_range:
  assumes K: "5 \<le> K" "ncls > 1 \<longrightarrow> 6 \<le> K"
      and len: "length d = B * A * K * (h * w)"
      and idx: "b < B" "idx < A * (h * w)"
  shows "0 < fst (class_score ncls A K (h * w)
                   (snd (decode_channels A K h w lx ly aw ah d)) b idx)
       \<and> fst (class_score ncls A K (h * w)
                   (snd (decode_channels A K h w lx ly aw ah d)) b idx) < 1"
proof -
  let ?d = "snd (decode_channels A K h w lx ly aw ah d)"
  from idx(2) have hw0: "0 < h * w" by (cases "h * w") auto
  then have hw: "idx mod (h * w) < h * w" by simp
  have a: "idx div (h * w) < A"
    using idx(2) hw0 by (simp add: less_mult_imp_div_less mult.commute)
  have k4: "4 < K" using K(1) by simp
  have obj: "view_at ?d A K (h * w) b (idx div (h * w)) 4 (idx mod (h * w))
      = sigmoid (view_at d A K (h * w) b (idx div (h * w)) 4 (idx mod (h * w)))"
    using decode_channels_view [OF K(1) len idx(1) a k4 hw, of lx ly aw ah] by simp
  let ?o = "sigmoid (view_at d A K (h * w) b (idx div (h * w)) 4 (idx mod (h * w)))"
  have o: "0 < ?o" "?o < 1" by (rule sigmoid_pos, rule sigmoid_less_one)
  show ?thesis
  proof (cases "ncls > 1")
    case True
    with K(2) have "map (\<lambda>j. view_at ?d A K (h * w) b (idx div (h * w)) (5 + j) (idx mod (h * w)))
        [0..<K - 5] \<noteq> []" by simp
    from softmax_max_range [OF this] obtain m where
      m: "m = list_max (softmax (map (\<lambda>j. view_at ?d A K (h * w) b (idx div (h * w)) (5 + j)
            (idx mod (h * w))) [0..<K - 5]))" and mr: "0 < m" "m \<le> 1" by blast
    have "fst (class_score ncls A K (h * w) ?d b idx) = m * ?o"
      using True by (simp add: class_score_def Let_def torch_max_def obj m)
    moreover have "0 < m * ?o" using mr o by simp
    moreover have "m * ?o < 1"
    proof -
      have "m * ?o \<le> 1 * ?o" using mr o by (intro mult_right_mono) simp_all
      then have "m * ?o \<le> ?o" by (simp only: mult_1)
      then show ?thesis using o(2) by (rule le_less_trans)
    qed
    ultimately show ?thesis by simp
  next
    case False
    then have "fst (class_score ncls A K (h * w) ?d b idx) = ?o"
      by (simp add: class_score_def Let_def obj)
    with o show ?thesis by simp
  qed
qed

lemma decode_score_range:
  assumes dec: "decode self t = (Inr dec, t')" and b: "b < dec_batch dec"
  shows "length (dec_cls_max dec ! b) = num_anchors self * (dec_h dec * dec_w dec)"
    and "idx < length (dec_cls_max dec ! b) \<Longrightarrow>
           0 < dec_cls_max dec ! b ! idx \<and> dec_cls_max dec ! b ! idx < 1"
proof -
  note d = decode_InrD [OF dec]
  from b show l: "length (dec_cls_max dec ! b) = num_anchors self * (dec_h dec * dec_w dec)"
    by (simp add: d(5))
  assume "idx < length (dec_cls_max dec ! b)"
  with l have i: "idx < num_anchors self * (dec_h dec * dec_w dec)" by simp
  with b have "dec_cls_max dec ! b ! idx = fst (class_score (num_classes self) (num_anchors self)
            (dec_chans dec) (dec_h dec * dec_w dec) (dec_output dec) b idx)"
    by (simp add: d(5))
  with class_score_range [OF d(2) d(3) d(1) b i]
  show "0 < dec_cls_max dec ! b ! idx \<and> dec_cls_max dec ! b ! idx < 1"
    by (simp add: d(4))
qed

text \<open>
  Claim C10. Every combined score the decoding computes lies in \<open>[0, 1]\<close> (strictly
  inside, over the reals), so none is the sentinel \<open>-1\<close>. On scores that are not negative
  the row of the code, in which the suppressed candidates carry \<open>-1\<close>, tests negative
  exactly at the suppressed candidates; the inner loop takes such a row to such a row,
  marking the same candidates as the loop with an explicit state, and the outer loop
  returns the same boxes as that loop. This holds for every image of a call.
\<close>

theorem sentinel_exact:
  "(decode self t = (Inr dec, t') \<and> b < dec_batch dec \<and> idx < length (dec_cls_max dec ! b) \<longrightarrow>
      0 \<le> dec_cls_max dec ! b ! idx \<and> dec_cls_max dec ! b ! idx \<le> 1
      \<and> dec_cls_max dec ! b ! idx \<noteq> -1)
   \<and> ((\<forall>j \<in> set ids. j < length sc \<and> 0 \<le> sc ! j) \<longrightarrow>
        (\<forall>j \<in> set ids. sentinel_row sc supp ! j < 0 \<longleftrightarrow> j \<in> supp)
      \<and> nms_inner box_of conf nms cur (sentinel_row sc supp) ids
          = sentinel_row sc (nms_inner_flag box_of conf nms cur sc supp ids)
      \<and> nms_outer box_of cls_of conf nms (sentinel_row sc supp) ids acc
          = nms_outer_flag box_of cls_of conf nms sc supp ids acc
      \<and> nms_outer box_of cls_of conf nms sc ids acc
          = nms_outer_flag box_of cls_of conf nms sc {} ids acc)
   \<and> ((\<forall>s. argsort_desc s (torch_sort s)) \<and> get_region_boxes_nms torch_sort self t = (Inr boxes, t') \<longrightarrow>
        (\<exists>dec. decode self t = (Inr dec, t')
           \<and> boxes = map (\<lambda>b. nms_outer_flag (cand_box (num_anchors self) dec b)
                                   (\<lambda>idx. dec_cls_max_idx dec ! b ! idx)
                                   (conf_thresh self) (nms_thresh self)
                                   (dec_cls_max dec ! b) {} (torch_sort (dec_cls_max dec ! b)) [])
                        [0..<dec_batch dec]))"
proof (intro conjI impI)
  assume a: "decode self t = (Inr dec, t') \<and> b < dec_batch dec \<and> idx < length (dec_cls_max dec ! b)"
  then have "0 < dec_cls_max dec ! b ! idx \<and> dec_cls_max dec ! b ! idx < 1"
    using decode_score_range(2) [of self t dec t' b idx] by simp
  then show "0 \<le> dec_cls_max dec ! b ! idx" "dec_cls_max dec ! b ! idx \<le> 1"
    "dec_cls_max dec ! b ! idx \<noteq> -1" by simp_all
next
  assume r: "\<forall>j \<in> set ids. j < length sc \<and> 0 \<le> sc ! j"
  show "\<forall>j \<in> set ids. sentinel_row sc supp ! j < 0 \<longleftrightarrow> j \<in> supp"
    using r sentinel_test(1) by blast
  show "nms_inner box_of conf nms cur (sentinel_row sc supp) ids
          = sentinel_row sc (nms_inner_flag box_of conf nms cur sc supp ids)"
    using r by (rule nms_inner_refines)
  show "nms_outer box_of cls_of conf nms (sentinel_row sc supp) ids acc
          = nms_outer_flag box_of cls_of conf nms sc supp ids acc"
    using r by (rule nms_outer_refines)
  show "nms_outer box_of cls_of conf nms sc ids acc
          = nms_outer_flag box_of cls_of conf nms sc {} ids acc"
    using nms_outer_refines [OF r, of box_of cls_of conf nms "{}" acc] by simp
next
  assume a: "(\<forall>s. argsort_desc s (torch_sort s)) \<and> get_region_boxes_nms torch_sort self t = (Inr boxes, t')"
  then have srt: "argsort_desc s (torch_sort s)" for s by simp
  from a get_region_boxes_nms_Inr [of torch_sort self t boxes t'] obtain dec where
    dec: "decode self t = (Inr dec, t')"
    and bx: "boxes = map (\<lambda>b. nms_outer (cand_box (num_anchors self) dec b)
                                   (\<lambda>idx. dec_cls_max_idx dec ! b ! idx)
                                   (conf_thresh self) (nms_thresh self)
                                   (dec_cls_max dec ! b) (torch_sort (dec_cls_max dec ! b)) [])
                        [0..<dec_batch dec]" by blast
  have "nms_outer (cand_box (num_anchors self) dec b) (\<lambda>idx. dec_cls_max_idx dec ! b ! idx)
            (conf_thresh self) (nms_thresh self) (dec_cls_max dec ! b) (torch_sort (dec_cls_max dec ! b)) []
        = nms_outer_flag (cand_box (num_anchors self) dec b) (\<lambda>idx. dec_cls_max_idx dec ! b ! idx)
            (conf_thresh self) (nms_thresh self) (dec_cls_max dec ! b) {} (torch_sort (dec_cls_max dec ! b)) []"
    if b: "b \<in> set [0..<dec_batch dec]" for b
  proof -
    let ?s = "dec_cls_max dec ! b"
    from b have b': "b < dec_batch dec" by simp
    have "\<forall>j \<in> set (torch_sort ?s). j < length ?s \<and> 0 \<le> ?s ! j"
    proof
      fix j assume "j \<in> set (torch_sort ?s)"
      with srt [of ?s] have j: "j < length ?s" by (simp add: argsort_desc_def)
      with decode_score_range(2) [OF dec b', of j] show "j < length ?s \<and> 0 \<le> ?s ! j" by simp
    qed
    from nms_outer_refines [OF this, of _ _ _ _ "{}"] show ?thesis by simp
  qed
  then have "boxes = map (\<lambda>b. nms_outer_flag (cand_box (num_anchors self) dec b)
                                   (\<lambda>idx. dec_cls_max_idx dec ! b ! idx)
                                   (conf_thresh self) (nms_thresh self)
                                   (dec_cls_max dec ! b) {} (torch_sort (dec_cls_max dec ! b)) [])
                        [0..<dec_batch dec]"
    unfolding bx by (intro map_cong refl)
  with dec show "\<exists>dec. decode self t = (Inr dec, t')
           \<and> boxes = map (\<lambda>b. nms_outer_flag (cand_box (num_anchors self) dec b)
                                   (\<lambda>idx. dec_cls_max_idx dec ! b ! idx)
                                   (conf_thresh self) (nms_thresh self)
                                   (dec_cls_max dec ! b) {} (torch_sort (dec_cls_max dec ! b)) [])
                        [0..<dec_batch dec]" by blast
qed


lemma example_decode:
  "decode \<lparr>conf_thresh = 1 / 4, nms_thresh = 1 / 5, anchors = [1, 1, 2, 2], num_classes = 1,
           num_anchors = 2\<rparr>
      \<lparr>shape = [10, 1, 1], data = [0, 0, 0, 0, 0, 0, 0, 0, 0, 0], is_cuda = False\<rparr>
   = (Inr \<lparr>dec_batch = 1, dec_h = 1, dec_w = 1, dec_chans = 5,
            dec_output = [1 / 2, 1 / 2, 1, 1, 1 / 2, 1 / 2, 1 / 2, 2, 2, 1 / 2],
            dec_cls_max = [[1 / 2, 1 / 2]], dec_cls_max_idx = [[0, 0]]\<rparr>,
      \<lparr>shape = [1, 10, 1, 1], data = [1 / 2, 1 / 2, 1, 1, 1 / 2, 1 / 2, 1 / 2, 2, 2, 1 / 2],
       is_cuda = False\<rparr>)"
  by (simp add: decode_def Let_def lin_x_def lin_y_def decode_channels_def chan_map_def
      class_score_def view_at_def sigmoid_def upt_0_2)

lemma example_call:
  "get_region_boxes_nms stable_argsort_desc
      \<lparr>conf_thresh = 1 / 4, nms_thresh = 1 / 5, anchors = [1, 1, 2, 2], num_classes = 1,
       num_anchors = 2\<rparr>
      \<lparr>shape = [10, 1, 1], data = [0, 0, 0, 0, 0, 0, 0, 0, 0, 0], is_cuda = False\<rparr>
   = (Inr [[\<lparr>rb_x = 1 / 2, rb_y = 1 / 2, rb_w = 1, rb_h = 1, rb_score = 1 / 2, rb_cls = 0\<rparr>]],
      \<lparr>shape = [1, 10, 1, 1], data = [1 / 2, 1 / 2, 1, 1, 1 / 2, 1 / 2, 1 / 2, 2, 2, 1 / 2],
       is_cuda = False\<rparr>)"
  unfolding get_region_boxes_nms_def example_decode
  by (simp add: stable_argsort_desc_def cand_box_def Let_def view_at_def box_entry_def
      bbox_iou_def iou_iw_def iou_ih_def rb_box_def upt_0_2)

theorem sentinel_exact_witness:
  "decode \<lparr>conf_thresh = 1 / 4, nms_thresh = 1 / 5, anchors = [1, 1, 2, 2], num_classes = 1,
           num_anchors = 2\<rparr>
      \<lparr>shape = [10, 1, 1], data = [0, 0, 0, 0, 0, 0, 0, 0, 0, 0], is_cuda = False\<rparr>
   = (Inr \<lparr>dec_batch = 1, dec_h = 1, dec_w = 1, dec_chans = 5,
            dec_output = [1 / 2, 1 / 2, 1, 1, 1 / 2, 1 / 2, 1 / 2, 2, 2, 1 / 2],
            dec_cls_max = [[1 / 2, 1 / 2]], dec_cls_max_idx = [[0, 0]]\<rparr>,
      \<lparr>shape = [1, 10, 1, 1], data = [1 / 2, 1 / 2, 1, 1, 1 / 2, 1 / 2, 1 / 2, 2, 2, 1 / 2],
       is_cuda = False\<rparr>)
   \<and> (0 :: real) \<le> [[1 / 2, 1 / 2]] ! 0 ! 1 \<and> [[1 / 2, 1 / 2 :: real]] ! 0 ! 1 \<le> 1
   \<and> [[1 / 2, 1 / 2 :: real]] ! 0 ! 1 \<noteq> - 1
   \<and> (1 :: nat) < length [9 / 10, 8 / 10, 6 / 10 :: real] \<and> (0 :: real) \<le> [9 / 10, 8 / 10, 6 / 10] ! 1
   \<and> (2 :: nat) < length [9 / 10, 8 / 10, 6 / 10 :: real] \<and> (0 :: real) \<le> [9 / 10, 8 / 10, 6 / 10] ! 2
   \<and> nms_inner_flag (\<lambda>i. if i = 2 then (9, 9, 2, 2) else (1, 1, 2, 2)) (1 / 2) (1 / 2) (1, 1, 2, 2)
        [9 / 10, 8 / 10, 6 / 10] {} [1, 2] = {1}
   \<and> nms_inner (\<lambda>i. if i = 2 then (9, 9, 2, 2) else (1, 1, 2, 2)) (1 / 2) (1 / 2) (1, 1, 2, 2)
        (sentinel_row [9 / 10, 8 / 10, 6 / 10] {}) [1, 2] = sentinel_row [9 / 10, 8 / 10, 6 / 10] {1}
   \<and> sentinel_row [9 / 10, 8 / 10, 6 / 10] {1} = [9 / 10, - 1, 6 / 10]
   \<and> (\<forall>s. argsort_desc s (stable_argsort_desc s))
   \<and> get_region_boxes_nms stable_argsort_desc
      \<lparr>conf_thresh = 1 / 4, nms_thresh = 1 / 5, anchors = [1, 1, 2, 2], num_classes = 1,
       num_anchors = 2\<rparr>
      \<lparr>shape = [10, 1, 1], data = [0, 0, 0, 0, 0, 0, 0, 0, 0, 0], is_cuda = False\<rparr>
     = (Inr [[\<lparr>rb_x = 1 / 2, rb_y = 1 / 2, rb_w = 1, rb_h = 1, rb_score = 1 / 2, rb_cls = 0\<rparr>]],
        \<lparr>shape = [1, 10, 1, 1], data = [1 / 2, 1 / 2, 1, 1, 1 / 2, 1 / 2, 1 / 2, 2, 2, 1 / 2],
         is_cuda = False\<rparr>)
   \<and> [[\<lparr>rb_x = 1 / 2, rb_y = 1 / 2, rb_w = 1, rb_h = 1, rb_score = 1 / 2, rb_cls = 0\<rparr>]]
     = map (\<lambda>b. nms_outer_flag
              (cand_box 2 \<lparr>dec_batch = 1, dec_h = 1, dec_w = 1, dec_chans = 5,
                 dec_output = [1 / 2, 1 / 2, 1, 1, 1 / 2, 1 / 2, 1 / 2, 2, 2, 1 / 2],
                 dec_cls_max = [[1 / 2, 1 / 2]], dec_cls_max_idx = [[0, 0]]\<rparr> b)
              (\<lambda>idx. [[0, 0]] ! b ! idx) (1 / 4) (1 / 5) ([[1 / 2, 1 / 2]] ! b) {}
              (stable_argsort_desc ([[1 / 2, 1 / 2]] ! b)) []) [0..<1]"
proof -
  let ?cv = "\<lparr>conf_thresh = 1 / 4, nms_thresh = 1 / 5, anchors = [1, 1, 2, 2], num_classes = 1,
           num_anchors = 2\<rparr>"
  let ?t = "\<lparr>shape = [10, 1, 1], data = [0, 0, 0, 0, 0, 0, 0, 0, 0, 0], is_cuda = False\<rparr>"
  let ?T = "\<lparr>shape = [1, 10, 1, 1], data = [1 / 2, 1 / 2, 1, 1, 1 / 2, 1 / 2, 1 / 2, 2, 2, 1 / 2],
       is_cuda = False\<rparr>"
  let ?dec = "\<lparr>dec_batch = 1, dec_h = 1, dec_w = 1, dec_chans = 5,
            dec_output = [1 / 2, 1 / 2, 1, 1, 1 / 2, 1 / 2, 1 / 2, 2, 2, 1 / 2],
            dec_cls_max = [[1 / 2, 1 / 2]], dec_cls_max_idx = [[0, 0]]\<rparr>"
  let ?b = "\<lparr>rb_x = 1 / 2, rb_y = 1 / 2, rb_w = 1, rb_h = 1, rb_score = 1 / 2, rb_cls = 0\<rparr>"
  let ?sc = "[9 / 10, 8 / 10, 6 / 10 :: real]"
  let ?bx = "\<lambda>i::nat. if i = 2 then (9, 9, 2, 2) else (1, 1, 2, 2 :: real)"
  note th = sentinel_exact [where self = ?cv and t = ?t and dec = ?dec and t' = ?T and b = 0
      and idx = 1 and ids = "[1, 2]" and sc = ?sc and supp = "{}" and box_of = ?bx
      and conf = "1 / 2" and nms = "1 / 2" and cur = "(1, 1, 2, 2)" and cls_of = "\<lambda>i. 0"
      and acc = "[]" and torch_sort = stable_argsort_desc and boxes = "[[?b]]"]
  have st: "\<forall>s. argsort_desc s (stable_argsort_desc s)"
    by (simp add: stable_argsort_desc_valid)
  from th [THEN conjunct1] example_decode
  have r: "(0 :: real) \<le> [[1 / 2, 1 / 2]] ! 0 ! 1" "[[1 / 2, 1 / 2 :: real]] ! 0 ! 1 \<le> 1"
      "[[1 / 2, 1 / 2 :: real]] ! 0 ! 1 \<noteq> - 1" by simp_all
  have h: "\<forall>j \<in> set [1, 2]. j < length ?sc \<and> 0 \<le> ?sc ! j" by simp
  note i = th [THEN conjunct2, THEN conjunct1, THEN mp, OF h, THEN conjunct2, THEN conjunct1]
  have f: "nms_inner_flag ?bx (1 / 2) (1 / 2) (1, 1, 2, 2) ?sc {} [1, 2] = {1}"
    by (simp add: bbox_iou_def iou_iw_def iou_ih_def Let_def)
  have s: "sentinel_row ?sc {1} = [9 / 10, - 1, 6 / 10]"
    by (simp add: sentinel_row_def)
  from th [THEN conjunct2, THEN conjunct2, THEN mp, OF conjI [OF st example_call]]
  obtain dec where d: "decode ?cv ?t = (Inr dec, ?T)"
    and bx: "[[?b]] = map (\<lambda>b. nms_outer_flag (cand_box (num_anchors ?cv) dec b)
                                   (\<lambda>idx. dec_cls_max_idx dec ! b ! idx)
                                   (conf_thresh ?cv) (nms_thresh ?cv)
                                   (dec_cls_max dec ! b) {} (stable_argsort_desc (dec_cls_max dec ! b)) [])
                        [0..<dec_batch dec]" by (elim exE conjE)
  from d example_decode have de: "dec = ?dec" by simp
  from bx have p: "[[?b]] = map (\<lambda>b. nms_outer_flag (cand_box 2 ?dec b)
              (\<lambda>idx. [[0, 0]] ! b ! idx) (1 / 4) (1 / 5) ([[1 / 2, 1 / 2]] ! b) {}
              (stable_argsort_desc ([[1 / 2, 1 / 2]] ! b)) []) [0..<1]"
    unfolding de by (simp only: BBoxConverter.select_convs decoded.select_convs)
  have q: "(1 :: nat) < length ?sc" "(0 :: real) \<le> ?sc ! 1" "(2 :: nat) < length ?sc"
      "(0 :: real) \<le> ?sc ! 2"
    by simp_all
  from i f have i': "nms_inner ?bx (1 / 2) (1 / 2) (1, 1, 2, 2) (sentinel_row ?sc {}) [1, 2]
      = sentinel_row ?sc {1}" by simp
  from example_decode r q f i' s st example_call p show ?thesis by (intro conjI)
qed

end
